theory Spec2Isabelle
  imports Complex_Main "HOL-Library.Multiset"
begin

section \<open>Time\<close>

text \<open>
  Go's \<^verbatim>\<open>time.Duration\<close> and the instants of the clock are counted in nanoseconds, as
  integers. No value of this development comes near the 64-bit range of the Go type
  (the largest constant is 24 hours), so the integers are unbounded.
\<close>

type_synonym time = int

definition Millisecond :: time where
  "Millisecond = 1000000"

definition Second :: time where
  "Second = 1000 * Millisecond"

definition Minute :: time where
  "Minute = 60 * Second"

definition Hour :: time where
  "Hour = 60 * Minute"

section \<open>internal/domain/message: the Message entity\<close>

datatype Status = StatusPending | StatusSuccess | StatusFailed

text \<open>The field \<^verbatim>\<open>ID\<close> holds the UUID in its string form (\<^verbatim>\<open>msg.ID.String()\<close>).\<close>

record Message =
  ID :: string
  To :: string
  Content :: string
  Status :: Status
  MessageID :: string
  RawResponse :: string
  SentAt :: "time option"
  CreatedAt :: time
  UpdatedAt :: time

text \<open>\<^verbatim>\<open>MarkSent\<close> reads the clock; the reading is the first argument.\<close>

definition MarkSent :: "time \<Rightarrow> Message \<Rightarrow> string \<Rightarrow> string \<Rightarrow> Message" where
  "MarkSent now m msgID raw =
     m\<lparr>SentAt := Some now, Status := StatusSuccess, MessageID := msgID, RawResponse := raw\<rparr>"

definition MarkFailed :: "Message \<Rightarrow> string \<Rightarrow> Message" where
  "MarkFailed m raw = m\<lparr>Status := StatusFailed, RawResponse := raw\<rparr>"

section \<open>internal/cache: key prefixes\<close>

definition SentMessages :: string where
  "SentMessages = ''sent_messages''"

text \<open>\<^verbatim>\<open>fmt.Sprintf("%s:%s", p, id)\<close>\<close>

definition Key :: "string \<Rightarrow> string \<Rightarrow> string" where
  "Key p ident = p @ '':'' @ ident"

section \<open>internal/service: the batch processor\<close>

text \<open>A Go \<^verbatim>\<open>error\<close> is represented by its message; \<^verbatim>\<open>nil\<close> is \<open>None\<close>.\<close>

type_synonym error = string

record messageService =
  batchSize :: int
  maxWorkers :: int
  perMessageTimeout :: time

definition NewMessageService :: "int \<Rightarrow> int \<Rightarrow> time \<Rightarrow> messageService" where
  "NewMessageService bs mw pmt =
     (let bs1 = (if bs \<le> 0 then 100 else bs);
          mw1 = (if mw \<le> 0 then 4 else mw);
          pmt1 = (if pmt \<le> 0 then 5 * Second else pmt)
      in \<lparr>batchSize = bs1, maxWorkers = mw1, perMessageTimeout = pmt1\<rparr>)"

text \<open>
  The collaborators of the service are interfaces (\<^verbatim>\<open>domain.Repository\<close>,
  \<^verbatim>\<open>sms.Client\<close>, \<^verbatim>\<open>cache.Cache\<close>); their answers are parameters of the model.
  \<open>cacheSet\<close> is \<open>None\<close> when the service was built with a nil cache. \<open>ctxErr i\<close>
  is the answer of \<^verbatim>\<open>ctx.Err() != nil\<close> at the moment a worker is about to take index
  \<open>i\<close> (each index is looked at by one worker, once). \<open>Now\<close> is the reading of
  \<^verbatim>\<open>time.Now()\<close> and \<open>FormatRFC3339\<close> is \<^verbatim>\<open>Time.Format(time.RFC3339)\<close>.
\<close>

record deps =
  GetPending :: "int \<Rightarrow> error + Message list"
  Send :: "string \<Rightarrow> string \<Rightarrow> string \<times> string \<times> error option"
  UpdateStatus :: "Message \<Rightarrow> error option"
  cacheSet :: "(string \<Rightarrow> string \<Rightarrow> time \<Rightarrow> error option) option"
  ctxErr :: "nat \<Rightarrow> bool"
  Now :: time
  FormatRFC3339 :: "time \<Rightarrow> string"

text \<open>
  What a run does to the outside world is kept as a list of effects, in program order:
  the calls to the collaborators with their arguments, and the log lines with their
  format string and arguments.
\<close>

datatype arg = S string | D int

datatype effect =
    SendCall string string
  | UpdateStatusCall Message
  | CacheSetCall string string time
  | Log string "arg list"

definition processMessage :: "deps \<Rightarrow> Message \<Rightarrow> error option \<times> Message \<times> effect list" where
  "processMessage d msg =
     (let ident = ID msg in
      case Send d (To msg) (Content msg) of
        (externalID, rawResp, Some err) \<Rightarrow>
          (let msg1 = MarkFailed msg rawResp in
           (Some (''send message '' @ ident @ '': '' @ err), msg1,
            [SendCall (To msg) (Content msg),
             Log ''[Service] Failed to send message %s: %v. Marking as FAILED.'' [S ident, S err],
             UpdateStatusCall msg1]
            @ (case UpdateStatus d msg1 of
                 Some uErr \<Rightarrow> [Log ''[Service] Failed to persist FAILED status for %s: %v'' [S ident, S uErr]]
               | None \<Rightarrow> [])))
      | (externalID, rawResp, None) \<Rightarrow>
          (let msg1 = MarkSent (Now d) msg externalID rawResp in
           case UpdateStatus d msg1 of
             Some err \<Rightarrow>
               (Some (''update status for '' @ ident @ '': '' @ err), msg1,
                [SendCall (To msg) (Content msg), UpdateStatusCall msg1,
                 Log ''[Service] Failed to persist SUCCESS status for %s: %v'' [S ident, S err]])
           | None \<Rightarrow>
               (None, msg1,
                [SendCall (To msg) (Content msg), UpdateStatusCall msg1]
                @ (case cacheSet d of
                     None \<Rightarrow> []
                   | Some set_fn \<Rightarrow>
                       if externalID \<noteq> '''' then
                         (let sentAt = (case SentAt msg1 of
                                          Some t \<Rightarrow> FormatRFC3339 d t
                                        | None \<Rightarrow> FormatRFC3339 d (Now d));
                              key = Key SentMessages externalID
                          in CacheSetCall key sentAt (24 * Hour)
                             # (case set_fn key sentAt (24 * Hour) of
                                  Some cErr \<Rightarrow> [Log ''[Service] Failed to cache in Redis for %s: %v'' [S externalID, S cErr]]
                                | None \<Rightarrow> []))
                       else []))))"

text \<open>
  The worker count of \<^verbatim>\<open>ProcessBatch\<close>, from the number of fetched messages \<open>n\<close>
  (\<^verbatim>\<open>len(messages)\<close>) and \<^verbatim>\<open>maxWorkers\<close>, with the two \<^verbatim>\<open>if\<close> statements in the
  source's order.
\<close>

definition workerCount :: "int \<Rightarrow> int \<Rightarrow> int" where
  "workerCount mw n =
     (let wc = n;
          wc1 = (if wc > mw then mw else wc);
          wc2 = (if wc1 \<le> 0 then 1 else wc1)
      in wc2)"

text \<open>
  The indices visited by \<^verbatim>\<open>for i := start; i < len(messages); i += workerCount\<close>
  when nothing stops the loop early. The source reaches the loop with
  \<^verbatim>\<open>workerCount >= 1\<close> only; a step of 0 is given the empty list here.
\<close>

function strideIndices :: "nat \<Rightarrow> nat \<Rightarrow> nat \<Rightarrow> nat list" where
  "strideIndices wc n i =
     (if i < n \<and> 0 < wc then i # strideIndices wc n (i + wc) else [])"
  by pat_completeness auto
termination
  by (relation "measure (\<lambda>(wc, n, i). n - i)") auto

text \<open>
  One worker goroutine: the same loop, with the cancellation check before each item and
  the call of \<^verbatim>\<open>processMessage\<close>. \<open>Processed i e m fx\<close> records that index \<open>i\<close> was
  processed, with the error returned, the message as it was left, and the effects;
  \<open>Stopped i\<close> records that the worker saw the context cancelled at index \<open>i\<close> and
  returned. \<open>wid\<close> is the \<^verbatim>\<open>workerID\<close> of the source (\<^verbatim>\<open>w+1\<close>).
\<close>

datatype workerStep =
    Processed nat "error option" Message "effect list"
  | Stopped nat

function worker :: "deps \<Rightarrow> Message list \<Rightarrow> nat \<Rightarrow> int \<Rightarrow> nat \<Rightarrow> workerStep list" where
  "worker d msgs wc wid i =
     (if i < length msgs \<and> 0 < wc then
        (if ctxErr d i then
           [Stopped i]
         else
           (let msg = msgs ! i;
                (err, msg1, fx) = processMessage d msg
            in Processed i err msg1
                 ([Log ''[Worker %d] is processing.'' [D (int i)]] @ fx
                  @ (case err of
                       Some e \<Rightarrow> [Log ''[Worker %d] Failed to process %s: %v'' [D wid, S (ID msg), S e]]
                     | None \<Rightarrow> []))
               # worker d msgs wc wid (i + wc)))
      else [])"
  by pat_completeness auto
termination
  by (relation "measure (\<lambda>(d, msgs, wc, wid, i). length msgs - i)") auto

declare strideIndices.simps [simp del]
declare worker.simps [simp del]

fun processedIndex :: "workerStep \<Rightarrow> nat option" where
  "processedIndex (Processed i e m fx) = Some i"
| "processedIndex (Stopped i) = None"

fun applyStep :: "workerStep \<Rightarrow> Message list \<Rightarrow> Message list" where
  "applyStep (Processed i e m fx) ms = ms[i := m]"
| "applyStep (Stopped i) ms = ms"

text \<open>
  The result of \<^verbatim>\<open>ProcessBatch\<close>: the returned error, the number of worker goroutines
  started, the trace of each worker, the fetched messages as the workers left them (the
  workers write through pointers, each to the indices of its own stride), and the log
  lines of \<^verbatim>\<open>ProcessBatch\<close> itself. The collaborators answer as functions of their
  arguments, so the order in which the goroutines interleave does not change any
  worker's trace. The per-message timeout only bounds the context handed to the
  collaborators; what they answer under it is part of their answers.
\<close>

record batchResult =
  err :: "error option"
  spawned :: nat
  traces :: "workerStep list list"
  messages :: "Message list"
  batchLog :: "effect list"

definition ProcessBatch :: "messageService \<Rightarrow> deps \<Rightarrow> batchResult" where
  "ProcessBatch s d =
     (case GetPending d (batchSize s) of
        Inl e \<Rightarrow>
          \<lparr>err = Some (''failed to fetch pending messages: '' @ e), spawned = 0,
           traces = [], messages = [], batchLog = []\<rparr>
      | Inr msgs \<Rightarrow>
          if length msgs = 0 then
            \<lparr>err = None, spawned = 0, traces = [], messages = msgs,
             batchLog = [Log ''[Service] No pending messages to process.'' []]\<rparr>
          else
            (let wc = nat (workerCount (maxWorkers s) (int (length msgs)));
                 ts = map (\<lambda>w. worker d msgs wc (int w + 1) w) [0..<wc]
             in \<lparr>err = None, spawned = wc, traces = ts,
                 messages = fold applyStep (concat ts) msgs,
                 batchLog =
                   [Log ''[Service] Processing %d messages with worker pool (batchSize=%d, maxWorkers=%d)...''
                      [D (int (length msgs)), D (batchSize s), D (maxWorkers s)],
                    Log ''[Service] Batch worker pool completed.'' []]\<rparr>))"

section \<open>internal/config: loading the environment\<close>

text \<open>
  \<^verbatim>\<open>os.Getenv\<close> (after \<^verbatim>\<open>godotenv.Load\<close>), \<^verbatim>\<open>strings.TrimSpace\<close>, \<^verbatim>\<open>strconv.Atoi\<close>
  and \<^verbatim>\<open>time.ParseDuration\<close> belong to the Go library; they are parameters. The two
  parsers answer \<open>None\<close> where the Go function returns an error.
\<close>

record stdlib =
  Getenv :: "string \<Rightarrow> string"
  TrimSpace :: "string \<Rightarrow> string"
  Atoi :: "string \<Rightarrow> int option"
  ParseDuration :: "string \<Rightarrow> time option"

definition getInt :: "stdlib \<Rightarrow> string \<Rightarrow> int \<Rightarrow> int" where
  "getInt lib key def =
     (let v = TrimSpace lib (Getenv lib key) in
      if v = [] then def
      else case Atoi lib v of None \<Rightarrow> def | Some i \<Rightarrow> i)"

definition getDuration :: "stdlib \<Rightarrow> string \<Rightarrow> time \<Rightarrow> time" where
  "getDuration lib key def =
     (let v = TrimSpace lib (Getenv lib key) in
      if v = [] then def
      else case ParseDuration lib v of None \<Rightarrow> def | Some d \<Rightarrow> d)"

text \<open>The scheduler and worker sections of \<^verbatim>\<open>Config\<close>, as \<^verbatim>\<open>New\<close> fills them.\<close>

record SchedulerConfig =
  Interval :: time
  BatchTimeout :: time

record WorkerConfig =
  BatchSize :: int
  MaxWorkers :: int
  PerMessageTimeout :: time

record Config =
  Scheduler :: SchedulerConfig
  Worker :: WorkerConfig

definition New :: "stdlib \<Rightarrow> Config" where
  "New lib =
     \<lparr>Scheduler =
        \<lparr>Interval = getDuration lib ''SCHEDULER_INTERVAL'' (5 * Second),
         BatchTimeout = getDuration lib ''SCHEDULER_BATCH_TIMEOUT'' (30 * Second)\<rparr>,
      Worker =
        \<lparr>BatchSize = getInt lib ''MESSAGE_BATCH_SIZE'' 100,
         MaxWorkers = getInt lib ''MESSAGE_MAX_WORKERS'' 4,
         PerMessageTimeout = getDuration lib ''MESSAGE_PER_MESSAGE_TIMEOUT'' (5 * Second)\<rparr>\<rparr>"

text \<open>
  The setting of a variable of the environment as the loader reads it: \<open>None\<close> when the
  variable is unset (empty once trimmed) or does not parse.
\<close>

definition intSetting :: "stdlib \<Rightarrow> string \<Rightarrow> int option" where
  "intSetting lib key =
     (let v = TrimSpace lib (Getenv lib key) in if v = [] then None else Atoi lib v)"

definition durationSetting :: "stdlib \<Rightarrow> string \<Rightarrow> time option" where
  "durationSetting lib key =
     (let v = TrimSpace lib (Getenv lib key) in if v = [] then None else ParseDuration lib v)"

section \<open>internal/scheduler: the control loop\<close>

definition DefaultInterval :: time where
  "DefaultInterval = 2 * Minute"

definition DefaultBatchTimeout :: time where
  "DefaultBatchTimeout = 30 * Second"

definition controlTimeout :: time where
  "controlTimeout = 2 * Second"

datatype controlOp = opStart | opStop | opStatus

text \<open>
  A reply channel (\<^verbatim>\<open>make(chan bool)\<close>, one per call of \<^verbatim>\<open>Start\<close>, \<^verbatim>\<open>Stop\<close> or
  \<^verbatim>\<open>IsRunning\<close>) is represented by a number that identifies it.
\<close>

type_synonym chan = nat

record controlMsg =
  op :: controlOp
  resp :: chan

record schedulerService =
  interval :: time
  batchTimeout :: time

definition NewSchedulerService :: "time \<Rightarrow> time \<Rightarrow> schedulerService" where
  "NewSchedulerService iv bt =
     (let iv1 = (if iv \<le> 0 then DefaultInterval else iv);
          bt1 = (if bt \<le> 0 then DefaultBatchTimeout else bt)
      in \<lparr>interval = iv1, batchTimeout = bt1\<rparr>)"

text \<open>
  The wiring of \<^verbatim>\<open>cmd/api/main.go\<close>: the configuration read by \<^verbatim>\<open>config.New\<close> is
  handed to the two constructors.
\<close>

definition wire :: "stdlib \<Rightarrow> messageService \<times> schedulerService" where
  "wire lib =
     (let cfg = New lib in
      (NewMessageService (BatchSize (Worker cfg)) (MaxWorkers (Worker cfg))
         (PerMessageTimeout (Worker cfg)),
       NewSchedulerService (Interval (Scheduler cfg)) (BatchTimeout (Scheduler cfg))))"

text \<open>The three local variables of \<^verbatim>\<open>loop\<close>; a nil \<^verbatim>\<open>pendingStop\<close> is \<open>None\<close>.\<close>

record loopState =
  running :: bool
  inBatch :: bool
  pendingStop :: "chan option"

text \<open>
  The goroutine of \<^verbatim>\<open>loop\<close> is either blocked in its \<^verbatim>\<open>select\<close> or inside the call
  \<^verbatim>\<open>s.messageService.ProcessBatch(ctx)\<close>, which it makes itself, in the branch of the
  tick. Beside it runs the ticker of \<^verbatim>\<open>time.NewTicker(s.interval)\<close>: when it fires, the
  Go runtime puts the tick in the channel \<^verbatim>\<open>ticker.C\<close>, which keeps one tick at most, and
  drops the tick when one is already waiting there; this happens wherever the goroutine
  of the loop is. The events are: the \<^verbatim>\<open>select\<close> receives a control message, the
  \<^verbatim>\<open>select\<close> receives the tick that waits in \<^verbatim>\<open>ticker.C\<close>, \<^verbatim>\<open>ProcessBatch\<close> returns, and
  the ticker fires. What the loop does in answer is a list of outputs: a value sent on a
  reply channel, the call of \<^verbatim>\<open>ProcessBatch\<close> (with the timeout of its context), a log
  line (format string and arguments; a duration is given in nanoseconds).
\<close>

datatype loopPoint = AtSelect | InProcessBatch

datatype loopEvent = RecvCtrl controlMsg | RecvTick | BatchReturns "error option" | TickerFires

datatype loopOutput = SendResp chan bool | CallProcessBatch time | LogLine string "arg list"

text \<open>The branch \<^verbatim>\<open>case msg := <-s.ctrl\<close>.\<close>

definition onCtrl :: "schedulerService \<Rightarrow> loopState \<Rightarrow> controlMsg \<Rightarrow> loopState \<times> loopOutput list" where
  "onCtrl sv st msg =
     (case op msg of
        opStart \<Rightarrow>
          (st\<lparr>running := True\<rparr>,
           (if \<not> running st then
              [LogLine ''[Scheduler] Started (interval=%s, batchTimeout=%s)''
                 [D (interval sv), D (batchTimeout sv)]]
            else [])
           @ [SendResp (resp msg) True])
      | opStop \<Rightarrow>
          if \<not> running st \<and> \<not> inBatch st then
            (st, [LogLine ''[Scheduler] Stop requested, but already idle.'' [],
                  SendResp (resp msg) True])
          else
            (let st1 = st\<lparr>running := False\<rparr> in
             if inBatch st1 then
               (st1\<lparr>pendingStop := Some (resp msg)\<rparr>,
                [LogLine ''[Scheduler] Stop requested. Waiting for current batch (if any)...'' []])
             else
               (st1,
                [LogLine ''[Scheduler] Stop requested. Waiting for current batch (if any)...'' [],
                 SendResp (resp msg) True]))
      | opStatus \<Rightarrow> (st, [SendResp (resp msg) (running st)]))"

text \<open>The branch \<^verbatim>\<open>case <-ticker.C\<close>, up to the call of \<^verbatim>\<open>ProcessBatch\<close>.\<close>

definition onTick :: "schedulerService \<Rightarrow> loopState \<Rightarrow> loopPoint \<times> loopState \<times> loopOutput list" where
  "onTick sv st =
     (if \<not> running st \<or> inBatch st then (AtSelect, st, [])
      else (InProcessBatch, st\<lparr>inBatch := True\<rparr>,
            [LogLine ''[Scheduler] Triggering batch...'' [], CallProcessBatch (batchTimeout sv)]))"

text \<open>The rest of that branch, from the return of \<^verbatim>\<open>ProcessBatch\<close> on.\<close>

definition onBatchReturn :: "loopState \<Rightarrow> error option \<Rightarrow> loopState \<times> loopOutput list" where
  "onBatchReturn st e =
     (let l1 = (case e of
                  Some x \<Rightarrow> [LogLine ''[Scheduler] Batch failed: %v'' [S x]]
                | None \<Rightarrow> [LogLine ''[Scheduler] Batch completed.'' []]);
          st1 = st\<lparr>inBatch := False\<rparr>
      in case pendingStop st1 of
           Some c \<Rightarrow>
             (st1\<lparr>pendingStop := None\<rparr>,
              l1 @ [SendResp c True, LogLine ''[Scheduler] Stopped (no active batch).'' []])
         | None \<Rightarrow> (st1, l1))"

text \<open>
  A configuration: where the goroutine of the loop is, its three variables, and whether
  a tick is waiting in \<^verbatim>\<open>ticker.C\<close>.
\<close>

type_synonym loopConfig = "loopPoint \<times> loopState \<times> bool"

text \<open>
  One event. \<open>None\<close> says that the event cannot happen in that configuration: inside
  \<^verbatim>\<open>ProcessBatch\<close> the goroutine does not receive, in the \<^verbatim>\<open>select\<close> no call is
  returning, and no tick is received from an empty \<^verbatim>\<open>ticker.C\<close>. The ticker fires in
  every configuration, also during a batch, and the tick then waits in the channel.
\<close>

fun loopStep :: "schedulerService \<Rightarrow> loopConfig \<Rightarrow> loopEvent \<Rightarrow> (loopConfig \<times> loopOutput list) option" where
  "loopStep sv (AtSelect, st, tc) (RecvCtrl msg) =
     (case onCtrl sv st msg of (st1, outs) \<Rightarrow> Some ((AtSelect, st1, tc), outs))"
| "loopStep sv (AtSelect, st, True) RecvTick =
     (case onTick sv st of (pt, st1, outs) \<Rightarrow> Some ((pt, st1, False), outs))"
| "loopStep sv (AtSelect, st, False) RecvTick = None"
| "loopStep sv (InProcessBatch, st, tc) (BatchReturns e) =
     (case onBatchReturn st e of (st1, outs) \<Rightarrow> Some ((AtSelect, st1, tc), outs))"
| "loopStep sv (pt, st, tc) TickerFires = Some ((pt, st, True), [])"
| "loopStep sv (AtSelect, st, tc) (BatchReturns e) = None"
| "loopStep sv (InProcessBatch, st, tc) (RecvCtrl msg) = None"
| "loopStep sv (InProcessBatch, st, tc) RecvTick = None"

definition loopInit :: loopConfig where
  "loopInit = (AtSelect, \<lparr>running = False, inBatch = False, pendingStop = None\<rparr>, False)"

text \<open>A run of the loop over a list of events, with the history of its steps.\<close>

type_synonym loopHistory = "(loopEvent \<times> loopOutput list) list"

fun loopRun :: "schedulerService \<Rightarrow> loopConfig \<Rightarrow> loopEvent list \<Rightarrow> (loopConfig \<times> loopHistory) option" where
  "loopRun sv cfg [] = Some (cfg, [])"
| "loopRun sv cfg (ev # evs) =
     (case loopStep sv cfg ev of
        None \<Rightarrow> None
      | Some (cfg1, outs) \<Rightarrow>
          (case loopRun sv cfg1 evs of
             None \<Rightarrow> None
           | Some (cfg2, h) \<Rightarrow> Some (cfg2, (ev, outs) # h)))"

subsection \<open>The callers: Start, Stop, IsRunning\<close>

text \<open>
  \<^verbatim>\<open>select { case <channel operation>: ... case <-time.After(d): ... }\<close>, entered at time
  \<open>t\<close>, when the other side of the channel operation is ready at time \<open>ready\<close>
  (\<open>None\<close>: never). The result is the set of the possible outcomes: \<open>Inr\<close> with the
  time at which the channel operation is done, \<open>Inl\<close> with the time of the timeout.
  When both are possible at the same instant Go picks either.
\<close>

definition selectOrTimeout :: "time \<Rightarrow> time option \<Rightarrow> time \<Rightarrow> (time + time) set" where
  "selectOrTimeout t ready d =
     (case ready of
        None \<Rightarrow> {Inl (t + d)}
      | Some r \<Rightarrow>
          (if r \<le> t + d then {Inr (max t r)} else {})
          \<union> (if t + d \<le> r then {Inl (t + d)} else {}))"

text \<open>
  \<^verbatim>\<open>Start\<close> and \<^verbatim>\<open>Stop\<close>, called at time \<open>t0\<close>. \<open>accepted\<close> is the time at which the
  loop is ready to receive the message from \<^verbatim>\<open>s.ctrl\<close>, and \<open>acked\<close> the time at which
  it is ready to send on the reply channel. The result is the set of the possible
  outcomes, each the returned error with the time of the return.
\<close>

definition Start :: "time \<Rightarrow> time option \<Rightarrow> time option \<Rightarrow> (error option \<times> time) set" where
  "Start t0 accepted acked =
     (\<Union>x \<in> selectOrTimeout t0 accepted controlTimeout.
        case x of
          Inl t1 \<Rightarrow> {(Some ''[Scheduler] Start: control loop not responding'', t1)}
        | Inr t1 \<Rightarrow>
            (\<Union>y \<in> selectOrTimeout t1 acked controlTimeout.
               case y of
                 Inl t2 \<Rightarrow> {(Some ''[Scheduler] Start: acknowledgement timeout'', t2)}
               | Inr t2 \<Rightarrow> {(None, t2)}))"

definition Stop :: "time \<Rightarrow> time option \<Rightarrow> time option \<Rightarrow> (error option \<times> time) set" where
  "Stop t0 accepted acked =
     (\<Union>x \<in> selectOrTimeout t0 accepted controlTimeout.
        case x of
          Inl t1 \<Rightarrow> {(Some ''[Scheduler] Stop: control loop not responding'', t1)}
        | Inr t1 \<Rightarrow>
            (\<Union>y \<in> selectOrTimeout t1 acked controlTimeout.
               case y of
                 Inl t2 \<Rightarrow> {(Some ''[Scheduler] Stop: acknowledgement timeout'', t2)}
               | Inr t2 \<Rightarrow> {(None, t2)}))"

text \<open>
  \<^verbatim>\<open>IsRunning\<close>, called at time \<open>t0\<close>: a plain send on \<^verbatim>\<open>s.ctrl\<close> and a plain receive
  from the reply channel. \<open>replied\<close> is the value the loop sends with the time at which
  it is ready to send it. \<open>None\<close> as a result says that the call never returns.
\<close>

definition IsRunning :: "time \<Rightarrow> time option \<Rightarrow> (bool \<times> time) option \<Rightarrow> (bool \<times> time) option" where
  "IsRunning t0 accepted replied =
     (case accepted of
        None \<Rightarrow> None
      | Some a \<Rightarrow>
          (case replied of
             None \<Rightarrow> None
           | Some (v, k) \<Rightarrow> Some (v, max (max t0 a) k)))"

subsection \<open>What a history shows\<close>

text \<open>The number of calls of \<^verbatim>\<open>ProcessBatch\<close> made and not yet returned.\<close>

fun isCall :: "loopOutput \<Rightarrow> bool" where
  "isCall (CallProcessBatch t) = True"
| "isCall (SendResp c v) = False"
| "isCall (LogLine f as) = False"

fun isReturn :: "loopEvent \<Rightarrow> bool" where
  "isReturn (BatchReturns e) = True"
| "isReturn (RecvCtrl m) = False"
| "isReturn RecvTick = False"
| "isReturn TickerFires = False"

definition activeStep :: "loopEvent \<times> loopOutput list \<Rightarrow> int \<Rightarrow> int" where
  "activeStep x n = n + int (length (filter isCall (snd x))) - (if isReturn (fst x) then 1 else 0)"

definition activeBatches :: "loopHistory \<Rightarrow> int" where
  "activeBatches h = fold activeStep h 0"

text \<open>
  Whether a batch is executing at the end of the history and a Stop message was received
  since it was started. The pair carried along is (a batch is executing, a Stop message
  was received during it).
\<close>

definition stopFlagsStep :: "loopEvent \<times> loopOutput list \<Rightarrow> bool \<times> bool \<Rightarrow> bool \<times> bool" where
  "stopFlagsStep x f =
     (if filter isCall (snd x) \<noteq> [] then (True, False)
      else case fst x of
             BatchReturns e \<Rightarrow> (False, False)
           | RecvCtrl m \<Rightarrow> (fst f, snd f \<or> (fst f \<and> op m = opStop))
           | RecvTick \<Rightarrow> f
           | TickerFires \<Rightarrow> f)"

definition stopDuringBatch :: "loopHistory \<Rightarrow> bool" where
  "stopDuringBatch h = (case fold stopFlagsStep h (False, False) of (b, s) \<Rightarrow> b \<and> s)"

text \<open>
  The reply channels of the Stop messages received so far on which the loop has not sent
  yet: the acknowledgements it holds.
\<close>

fun answered :: "loopOutput list \<Rightarrow> chan list" where
  "answered [] = []"
| "answered (SendResp c v # outs) = c # answered outs"
| "answered (CallProcessBatch t # outs) = answered outs"
| "answered (LogLine f as # outs) = answered outs"

definition heldStep :: "loopEvent \<times> loopOutput list \<Rightarrow> chan list \<Rightarrow> chan list" where
  "heldStep x held =
     fold remove1 (answered (snd x))
       (held @ (case fst x of
                  RecvCtrl m \<Rightarrow> (if op m = opStop then [resp m] else [])
                | RecvTick \<Rightarrow> []
                | BatchReturns e \<Rightarrow> []
                | TickerFires \<Rightarrow> []))"

definition heldAcks :: "loopHistory \<Rightarrow> chan list" where
  "heldAcks h = fold heldStep h []"

subsection \<open>The invariant of the loop\<close>

text \<open>
  What holds of the configuration and the history after every run of the loop from its
  initial state: the goroutine is inside \<^verbatim>\<open>ProcessBatch\<close> exactly when \<^verbatim>\<open>inBatch\<close> is
  set, one call is active exactly then, and no acknowledgement is held.
\<close>

definition loopInv :: "loopConfig \<Rightarrow> loopHistory \<Rightarrow> bool" where
  "loopInv cfg h =
     (pendingStop (fst (snd cfg)) = None
      \<and> (inBatch (fst (snd cfg)) \<longleftrightarrow> fst cfg = InProcessBatch)
      \<and> activeBatches h = (if fst cfg = InProcessBatch then 1 else 0)
      \<and> heldAcks h = []
      \<and> fold stopFlagsStep h (False, False) = (fst cfg = InProcessBatch, False))"

section \<open>Example inputs\<close>

text \<open>Three pending messages and collaborators that always succeed.\<close>

definition msgA :: Message where
  "msgA = \<lparr>ID = ''a'', To = ''+100'', Content = ''first'', Status = StatusPending,
           MessageID = [], RawResponse = [], SentAt = None, CreatedAt = 0, UpdatedAt = 0\<rparr>"

definition msgB :: Message where
  "msgB = \<lparr>ID = ''b'', To = ''+200'', Content = ''second'', Status = StatusPending,
           MessageID = [], RawResponse = [], SentAt = None, CreatedAt = 0, UpdatedAt = 0\<rparr>"

definition msgC :: Message where
  "msgC = \<lparr>ID = ''c'', To = ''+300'', Content = ''third'', Status = StatusPending,
           MessageID = [], RawResponse = [], SentAt = None, CreatedAt = 0, UpdatedAt = 0\<rparr>"

definition okDeps :: deps where
  "okDeps =
     \<lparr>GetPending = (\<lambda>limit. Inr (take (nat limit) [msgA, msgB, msgC])),
      Send = (\<lambda>to content. (''X'', ''accepted'', None)),
      UpdateStatus = (\<lambda>m. None),
      cacheSet = Some (\<lambda>k v ttl. None),
      ctxErr = (\<lambda>i. False),
      Now = 7,
      FormatRFC3339 = (\<lambda>t. ''1970-01-01T00:00:00Z'')\<rparr>"

text \<open>The transport refuses every message and the repository refuses every update.\<close>

definition sendFailsDeps :: deps where
  "sendFailsDeps =
     okDeps\<lparr>Send := (\<lambda>to content. ([], ''busy'', Some ''webhook returned non-2xx status'')),
            UpdateStatus := (\<lambda>m. Some ''db down'')\<rparr>"

text \<open>The transport accepts, the repository refuses the update.\<close>

definition updateFailsDeps :: deps where
  "updateFailsDeps = okDeps\<lparr>UpdateStatus := (\<lambda>m. Some ''db down'')\<rparr>"

text \<open>Everything succeeds but the cache write.\<close>

definition cacheFailsDeps :: deps where
  "cacheFailsDeps = okDeps\<lparr>cacheSet := Some (\<lambda>k v ttl. Some ''redis down'')\<rparr>"

text \<open>The fetch fails.\<close>

definition fetchFailsDeps :: deps where
  "fetchFailsDeps = okDeps\<lparr>GetPending := (\<lambda>limit. Inl ''db down'')\<rparr>"

text \<open>Nothing is pending.\<close>

definition nothingPendingDeps :: deps where
  "nothingPendingDeps = okDeps\<lparr>GetPending := (\<lambda>limit. Inr [])\<rparr>"

definition exampleService :: messageService where
  "exampleService = NewMessageService 3 2 0"

text \<open>An environment in which no variable is set.\<close>

definition emptyEnv :: stdlib where
  "emptyEnv = \<lparr>Getenv = (\<lambda>k. []), TrimSpace = (\<lambda>v. v), Atoi = (\<lambda>v. None),
               ParseDuration = (\<lambda>v. None)\<rparr>"

text \<open>
  A scheduler built with the defaults, started at time 0; the ticker fires at 2 minutes
  and the loop starts a batch that returns 10 seconds later; the loop then receives the
  message of a caller who is still waiting.
\<close>

definition exampleScheduler :: schedulerService where
  "exampleScheduler = NewSchedulerService 0 0"

definition batchTrace :: "(time \<times> loopEvent) list" where
  "batchTrace =
     [(0, RecvCtrl \<lparr>op = opStart, resp = 0\<rparr>),
      (120 * Second, TickerFires),
      (120 * Second, RecvTick),
      (130 * Second, BatchReturns None)]"

definition stopTrace :: "(time \<times> loopEvent) list" where
  "stopTrace = batchTrace @ [(130 * Second, RecvCtrl \<lparr>op = opStop, resp = 1\<rparr>)]"

definition statusTrace :: "(time \<times> loopEvent) list" where
  "statusTrace = batchTrace @ [(130 * Second, RecvCtrl \<lparr>op = opStatus, resp = 1\<rparr>)]"

text \<open>The history of the loop over \<open>stopTrace\<close>.\<close>

definition stopHistory :: loopHistory where
  "stopHistory =
     [(RecvCtrl \<lparr>op = opStart, resp = 0\<rparr>,
       [LogLine ''[Scheduler] Started (interval=%s, batchTimeout=%s)''
          [D (120 * Second), D (30 * Second)],
        SendResp 0 True]),
      (TickerFires, []),
      (RecvTick,
       [LogLine ''[Scheduler] Triggering batch...'' [], CallProcessBatch (30 * Second)]),
      (BatchReturns None, [LogLine ''[Scheduler] Batch completed.'' []]),
      (RecvCtrl \<lparr>op = opStop, resp = 1\<rparr>,
       [LogLine ''[Scheduler] Stop requested. Waiting for current batch (if any)...'' [],
        SendResp 1 True])]"

text \<open>
  A scheduler with a tick every 5 seconds, started at time 0. The ticker fires at 5
  seconds and the loop starts a batch that returns at 12 seconds; the ticker fires again
  at 10 seconds, during the batch; at 12 seconds the loop is back in its \<^verbatim>\<open>select\<close>.
\<close>

definition quickScheduler :: schedulerService where
  "quickScheduler = NewSchedulerService (5 * Second) 0"

definition busyTrace :: "(time \<times> loopEvent) list" where
  "busyTrace =
     [(0, RecvCtrl \<lparr>op = opStart, resp = 0\<rparr>),
      (5 * Second, TickerFires),
      (5 * Second, RecvTick),
      (10 * Second, TickerFires),
      (12 * Second, BatchReturns None),
      (12 * Second, RecvTick)]"

section \<open>The stride of the workers\<close>

lemma set_strideIndices:
  "0 < wc \<Longrightarrow> set (strideIndices wc n i) = {j. \<exists>m. j = i + m * wc \<and> j < n}"
proof (induction wc n i rule: strideIndices.induct)
  case (1 wc n i)
  show ?case
  proof (cases "i < n")
    case False
    then show ?thesis by (auto simp: strideIndices.simps [of wc n i])
  next
    case True
    have IH: "set (strideIndices wc n (i + wc)) = {j. \<exists>m. j = i + wc + m * wc \<and> j < n}"
      using "1.IH" True "1.prems" by simp
    have "{j. \<exists>m. j = i + m * wc \<and> j < n} = insert i {j. \<exists>m. j = i + wc + m * wc \<and> j < n}"
    proof (rule set_eqI, rule iffI)
      fix j assume "j \<in> {j. \<exists>m. j = i + m * wc \<and> j < n}"
      then obtain m where m: "j = i + m * wc" "j < n" by blast
      show "j \<in> insert i {j. \<exists>m. j = i + wc + m * wc \<and> j < n}"
      proof (cases m)
        case 0
        then show ?thesis using m by simp
      next
        case (Suc m')
        then have "j = i + wc + m' * wc" using m by simp
        then show ?thesis using m by blast
      qed
    next
      fix j assume "j \<in> insert i {j. \<exists>m. j = i + wc + m * wc \<and> j < n}"
      then consider "j = i" | m where "j = i + wc + m * wc" "j < n" by blast
      then show "j \<in> {j. \<exists>m. j = i + m * wc \<and> j < n}"
      proof cases
        case 1
        then have "j = i + 0 * wc \<and> j < n" using True by simp
        then show ?thesis by blast
      next
        case 2
        then have "j = i + Suc m * wc \<and> j < n" by simp
        then show ?thesis by blast
      qed
    qed
    then show ?thesis
      using True "1.prems" IH by (simp add: strideIndices.simps [of wc n i])
  qed
qed

lemma strideIndices_ge: "j \<in> set (strideIndices wc n i) \<Longrightarrow> i \<le> j"
proof (induction wc n i rule: strideIndices.induct)
  case (1 wc n i)
  then show ?case
    by (cases "i < n \<and> 0 < wc") (auto simp: strideIndices.simps [of wc n i])
qed

lemma distinct_strideIndices: "distinct (strideIndices wc n i)"
proof (induction wc n i rule: strideIndices.induct)
  case (1 wc n i)
  show ?case
  proof (cases "i < n \<and> 0 < wc")
    case True
    then have c: "i < n" "0 < wc" by auto
    have "i \<notin> set (strideIndices wc n (i + wc))"
      using strideIndices_ge [of i wc n "i + wc"] c by auto
    moreover have "distinct (strideIndices wc n (i + wc))"
      using "1.IH" True by blast
    moreover have "strideIndices wc n i = i # strideIndices wc n (i + wc)"
      using c by (simp add: strideIndices.simps [of wc n i])
    ultimately show ?thesis by simp
  next
    case False
    then have "strideIndices wc n i = []" by (simp add: strideIndices.simps [of wc n i])
    then show ?thesis by simp
  qed
qed

lemma length_strideIndices:
  "0 < wc \<Longrightarrow> length (strideIndices wc n i) = (n - i + (wc - 1)) div wc"
proof (induction wc n i rule: strideIndices.induct)
  case (1 wc n i)
  show ?case
  proof (cases "i < n")
    case False
    then have "strideIndices wc n i = []" by (simp add: strideIndices.simps [of wc n i])
    moreover have "(n - i + (wc - 1)) div wc = 0" using False "1.prems" by simp
    ultimately show ?thesis by simp
  next
    case True
    have IH: "length (strideIndices wc n (i + wc)) = (n - (i + wc) + (wc - 1)) div wc"
      using "1.IH" True "1.prems" by simp
    have unf: "strideIndices wc n i = i # strideIndices wc n (i + wc)"
      using True "1.prems" by (simp add: strideIndices.simps [of wc n i])
    show ?thesis
    proof (cases "i + wc \<le> n")
      case True
      define d where "d = n - (i + wc)"
      have "n - i = d + wc" using True d_def by simp
      then have eq: "n - i + (wc - 1) = d + (wc - 1) + wc" by arith
      have "(n - i + (wc - 1)) div wc = (d + (wc - 1) + wc) div wc" by (simp only: eq)
      also have "\<dots> = Suc ((d + (wc - 1)) div wc)"
        using "1.prems" div_add_self2 [of wc "d + (wc - 1)"] by linarith
      finally have f: "(n - i + (wc - 1)) div wc = Suc ((d + (wc - 1)) div wc)" .
      have "length (strideIndices wc n i) = Suc (length (strideIndices wc n (i + wc)))"
        by (simp only: unf length_Cons)
      also have "\<dots> = Suc ((d + (wc - 1)) div wc)" by (simp only: IH d_def)
      also have "\<dots> = (n - i + (wc - 1)) div wc" by (simp only: f)
      finally show ?thesis .
    next
      case False
      then have a: "n - (i + wc) = 0" by simp
      have "(wc - 1) div wc = 0" using "1.prems" by simp
      then have l: "length (strideIndices wc n (i + wc)) = 0" using IH a by simp
      define e where "e = n - i - 1"
      have e: "n - i + (wc - 1) = wc + e" "e < wc" using False \<open>i < n\<close> "1.prems" e_def by auto
      have "e div wc = 0" using e(2) by simp
      moreover have "(wc + e) div wc = e div wc + 1"
        using "1.prems" by (intro div_add_self1) simp
      ultimately have "(wc + e) div wc = 1" by linarith
      then have "(n - i + (wc - 1)) div wc = 1" by (simp only: e(1))
      moreover have "length (strideIndices wc n i) = 1" by (simp only: unf length_Cons l)
      ultimately show ?thesis by (simp only:)
    qed
  qed
qed

lemma set_strideIndices_mod:
  assumes "k < wc"
  shows "set (strideIndices wc n k) = {j. j < n \<and> j mod wc = k}"
proof -
  have wc: "0 < wc" using assms by simp
  show ?thesis
  proof (rule set_eqI, rule iffI)
    fix j assume "j \<in> set (strideIndices wc n k)"
    then obtain m where "j = k + m * wc" "j < n" using set_strideIndices [OF wc] by auto
    then show "j \<in> {j. j < n \<and> j mod wc = k}" using assms by simp
  next
    fix j assume "j \<in> {j. j < n \<and> j mod wc = k}"
    then have "j < n" "j mod wc = k" by auto
    then have "j = k + (j div wc) * wc" by (metis add.commute div_mult_mod_eq)
    then show "j \<in> set (strideIndices wc n k)"
      using set_strideIndices [OF wc, of n k] \<open>j < n\<close> by blast
  qed
qed


lemma workerCount_eq: "workerCount mw n = max 1 (min mw n)"
  by (simp add: workerCount_def Let_def max_def min_def)

lemma workerCount_bounds: "0 < n \<Longrightarrow> 1 \<le> workerCount mw n \<and> workerCount mw n \<le> n"
  by (simp add: workerCount_def Let_def)

lemma ceil_div_nat:
  assumes "0 < wc"
  shows "int ((n + (wc - 1)) div wc) = \<lceil>real n / real wc\<rceil>"
proof -
  define q where "q = (n + (wc - 1)) div wc"
  have "n + (wc - 1) < wc + q * wc"
    unfolding q_def using assms by (rule dividend_less_div_times)
  then have a: "n \<le> q * wc" using assms by arith
  have "q * wc \<le> n + (wc - 1)"
    unfolding q_def by (rule div_times_less_eq_dividend)
  then have b: "q * wc < n + wc" using assms by arith
  have ra: "real n \<le> real q * real wc"
    using a by (metis of_nat_le_iff of_nat_mult)
  have rb: "real q * real wc < real n + real wc"
    using b by (metis of_nat_less_iff of_nat_mult of_nat_add)
  have wcr: "0 < real wc" using assms by simp
  have u: "real n / real wc \<le> real q"
    using ra wcr by (simp add: pos_divide_le_eq)
  have "(real q - 1) * real wc < real n"
    using rb by (simp add: algebra_simps)
  then have l: "real q - 1 < real n / real wc"
    using wcr by (simp add: pos_less_divide_eq)
  have "\<lceil>real n / real wc\<rceil> = int q"
    by (rule ceiling_unique) (use l u in simp_all)
  then show ?thesis by (simp add: q_def)
qed

lemma strideIndices_step:
  "i < n \<Longrightarrow> 0 < wc \<Longrightarrow> strideIndices wc n i = i # strideIndices wc n (i + wc)"
  by (subst strideIndices.simps) simp

lemma strideIndices_done:
  "\<not> (i < n \<and> 0 < wc) \<Longrightarrow> strideIndices wc n i = []"
  by (subst strideIndices.simps) auto

lemma worker_done:
  "\<not> (i < length msgs \<and> 0 < wc) \<Longrightarrow> worker d msgs wc wid i = []"
  by (subst worker.simps) auto

lemma worker_stopped:
  "i < length msgs \<Longrightarrow> 0 < wc \<Longrightarrow> ctxErr d i \<Longrightarrow> worker d msgs wc wid i = [Stopped i]"
  by (subst worker.simps) simp

lemma worker_step:
  "i < length msgs \<Longrightarrow> 0 < wc \<Longrightarrow> \<not> ctxErr d i \<Longrightarrow> processMessage d (msgs ! i) = (e, m, fx) \<Longrightarrow>
   worker d msgs wc wid i =
     Processed i e m
       ([Log ''[Worker %d] is processing.'' [D (int i)]] @ fx
        @ (case e of
             Some x \<Rightarrow> [Log ''[Worker %d] Failed to process %s: %v'' [D wid, S (ID (msgs ! i)), S x]]
           | None \<Rightarrow> []))
     # worker d msgs wc wid (i + wc)"
  by (subst worker.simps) simp

lemma processed_worker:
  "List.map_filter processedIndex (worker d msgs wc wid i)
     = takeWhile (\<lambda>j. \<not> ctxErr d j) (strideIndices wc (length msgs) i)"
proof (induction d msgs wc wid i rule: worker.induct)
  case (1 d msgs wc wid i)
  show ?case
  proof (cases "i < length msgs \<and> 0 < wc")
    case False
    then show ?thesis
      by (simp add: worker_done strideIndices_done List.map_filter_simps)
  next
    case True
    then have c: "i < length msgs" "0 < wc" by auto
    show ?thesis
    proof (cases "ctxErr d i")
      case True
      then show ?thesis using c
        by (simp add: worker_stopped strideIndices_step List.map_filter_simps)
    next
      case False
      obtain e m fx where pm: "processMessage d (msgs ! i) = (e, m, fx)"
        by (cases "processMessage d (msgs ! i)") auto
      have "List.map_filter processedIndex (worker d msgs wc wid (i + wc))
              = takeWhile (\<lambda>j. \<not> ctxErr d j) (strideIndices wc (length msgs) (i + wc))"
        using "1.IH" [OF True False refl] pm by auto
      then show ?thesis using c False
        by (simp add: worker_step [OF c False pm] strideIndices_step List.map_filter_simps)
    qed
  qed
qed


lemma ProcessBatch_nonempty:
  assumes "GetPending d (batchSize s) = Inr msgs" and "msgs \<noteq> []"
  shows "ProcessBatch s d =
           (let wc = nat (workerCount (maxWorkers s) (int (length msgs)));
                ts = map (\<lambda>w. worker d msgs wc (int w + 1) w) [0..<wc]
            in \<lparr>err = None, spawned = wc, traces = ts,
                messages = fold applyStep (concat ts) msgs,
                batchLog =
                  [Log ''[Service] Processing %d messages with worker pool (batchSize=%d, maxWorkers=%d)...''
                     [D (int (length msgs)), D (batchSize s), D (maxWorkers s)],
                   Log ''[Service] Batch worker pool completed.'' []]\<rparr>)"
  using assms by (simp add: ProcessBatch_def)

lemma stride_owner_unique:
  assumes "0 < wc" and "i < n"
  shows "\<exists>!k. k < wc \<and> i \<in> set (strideIndices wc n k)"
proof (rule ex1I [of _ "i mod wc"])
  show "i mod wc < wc \<and> i \<in> set (strideIndices wc n (i mod wc))"
    using assms by (simp add: set_strideIndices_mod)
next
  fix k assume "k < wc \<and> i \<in> set (strideIndices wc n k)"
  then show "k = i mod wc" by (auto simp: set_strideIndices_mod)
qed

lemma stride_cover:
  assumes "0 < wc" and "wc \<le> n"
  shows "mset (concat (map (strideIndices wc n) [0..<wc])) = mset [0..<n]"
proof -
  let ?xss = "map (strideIndices wc n) [0..<wc]"
  have mem: "k \<in> set (strideIndices wc n k)" if "k < wc" for k
    using that assms by (simp add: set_strideIndices_mod)
  have inj: "inj_on (strideIndices wc n) (set [0..<wc])"
  proof (rule inj_onI)
    fix a b assume ab: "a \<in> set [0..<wc]" "b \<in> set [0..<wc]"
      and eq: "strideIndices wc n a = strideIndices wc n b"
    then have "a \<in> set (strideIndices wc n b)" using mem [of a] by simp
    then show "a = b" using ab by (auto simp: set_strideIndices_mod)
  qed
  have d1: "distinct ?xss" using inj by (simp add: distinct_map)
  have d2: "distinct ys" if "ys \<in> set ?xss" for ys
    using that by (auto simp: distinct_strideIndices)
  have d3: "set ys \<inter> set zs = {}" if "ys \<in> set ?xss" "zs \<in> set ?xss" "ys \<noteq> zs" for ys zs
    using that by (auto simp: set_strideIndices_mod)
  have dist: "distinct (concat ?xss)"
    using d1 d2 d3 by (rule distinct_concat)
  have "set (concat ?xss) = {j. j < n}"
    using assms by (auto simp: set_strideIndices_mod)
  then have "set (concat ?xss) = set [0..<n]" by auto
  moreover have "distinct [0..<n]" by simp
  ultimately show ?thesis using dist set_eq_iff_mset_eq_distinct by blast
qed

text \<open>
  Claim C3. For a batch of \<open>n > 0\<close> fetched items the number of workers started is
  \<open>max 1 (min maxWorkers n)\<close>. Worker \<open>k\<close> (\<open>k < wc\<close>) is assigned exactly the indices
  \<open>k, k + wc, k + 2 wc, ...\<close> below \<open>n\<close>, and it processes them in this order up to the
  first one at which it finds the context cancelled. Every index below \<open>n\<close> is assigned
  to exactly one worker: the assignments of all workers together hold each index once.
  No worker is assigned more than \<open>\<lceil>n / wc\<rceil>\<close> indices.
\<close>

theorem C3_stride_partition:
  assumes fetch: "GetPending d (batchSize s) = Inr msgs"
    and n: "n = length msgs" and pos: "0 < n"
    and wc: "wc = spawned (ProcessBatch s d)"
  shows "int wc = max 1 (min (maxWorkers s) (int n))
       \<and> length (traces (ProcessBatch s d)) = wc
       \<and> (\<forall>k<wc. List.map_filter processedIndex (traces (ProcessBatch s d) ! k)
                   = takeWhile (\<lambda>j. \<not> ctxErr d j) (strideIndices wc n k))
       \<and> (\<forall>k<wc. set (strideIndices wc n k) = {j. \<exists>m. j = k + m * wc \<and> j < n})
       \<and> (\<forall>i<n. \<exists>!k. k < wc \<and> i \<in> set (strideIndices wc n k))
       \<and> mset (concat (map (strideIndices wc n) [0..<wc])) = mset [0..<n]
       \<and> (\<forall>k<wc. int (length (strideIndices wc n k)) \<le> \<lceil>real n / real wc\<rceil>)"
proof -
  have ne: "msgs \<noteq> []" using n pos by auto
  note pb = ProcessBatch_nonempty [OF fetch ne]
  have wc_eq: "wc = nat (workerCount (maxWorkers s) (int n))"
    using wc n by (simp add: pb Let_def)
  have bnd: "1 \<le> workerCount (maxWorkers s) (int n)" "workerCount (maxWorkers s) (int n) \<le> int n"
    using workerCount_bounds [of "int n" "maxWorkers s"] pos by auto
  have wc_pos: "0 < wc" and wc_le: "wc \<le> n" using wc_eq bnd by auto
  have c1: "int wc = max 1 (min (maxWorkers s) (int n))"
    using wc_eq bnd by (simp add: workerCount_eq)
  have tr: "traces (ProcessBatch s d) = map (\<lambda>w. worker d msgs wc (int w + 1) w) [0..<wc]"
    using wc_eq n by (simp add: pb Let_def)
  have c2: "length (traces (ProcessBatch s d)) = wc" by (simp add: tr)
  have c3: "\<forall>k<wc. List.map_filter processedIndex (traces (ProcessBatch s d) ! k)
                   = takeWhile (\<lambda>j. \<not> ctxErr d j) (strideIndices wc n k)"
    by (simp add: tr processed_worker n)
  have c4: "\<forall>k<wc. set (strideIndices wc n k) = {j. \<exists>m. j = k + m * wc \<and> j < n}"
    using wc_pos by (simp add: set_strideIndices)
  have c5: "\<forall>i<n. \<exists>!k. k < wc \<and> i \<in> set (strideIndices wc n k)"
    using stride_owner_unique [OF wc_pos] by blast
  have c6: "mset (concat (map (strideIndices wc n) [0..<wc])) = mset [0..<n]"
    using wc_pos wc_le by (rule stride_cover)
  have c7: "\<forall>k<wc. int (length (strideIndices wc n k)) \<le> \<lceil>real n / real wc\<rceil>"
  proof (intro allI impI)
    fix k assume "k < wc"
    have "length (strideIndices wc n k) = (n - k + (wc - 1)) div wc"
      using wc_pos by (rule length_strideIndices)
    also have "\<dots> \<le> (n + (wc - 1)) div wc" by (intro div_le_mono) simp
    finally have "int (length (strideIndices wc n k)) \<le> int ((n + (wc - 1)) div wc)" by simp
    then show "int (length (strideIndices wc n k)) \<le> \<lceil>real n / real wc\<rceil>"
      using ceil_div_nat [OF wc_pos, of n] by simp
  qed
  show ?thesis using c1 c2 c3 c4 c5 c6 c7 by blast
qed

lemma example_fetch: "GetPending okDeps (batchSize exampleService) = Inr [msgA, msgB, msgC]"
  by (simp add: okDeps_def exampleService_def NewMessageService_def)

lemma example_spawned: "spawned (ProcessBatch exampleService okDeps) = 2"
  using ProcessBatch_nonempty [OF example_fetch]
  by (simp add: workerCount_def exampleService_def NewMessageService_def Let_def)

text \<open>Three fetched messages and \<^verbatim>\<open>maxWorkers = 2\<close>: two workers, with indices 0, 2 and 1.\<close>

theorem C3_stride_partition_witness:
  "GetPending okDeps (batchSize exampleService) = Inr [msgA, msgB, msgC]
   \<and> (3::nat) = length [msgA, msgB, msgC] \<and> (0::nat) < 3
   \<and> (2::nat) = spawned (ProcessBatch exampleService okDeps)
   \<and> int 2 = max 1 (min (maxWorkers exampleService) (int 3))
   \<and> length (traces (ProcessBatch exampleService okDeps)) = 2
   \<and> set (strideIndices 2 3 0) = {j. \<exists>m. j = 0 + m * 2 \<and> j < 3}
   \<and> (\<exists>!k. k < 2 \<and> 2 \<in> set (strideIndices 2 3 k))
   \<and> mset (concat (map (strideIndices 2 3) [0..<2])) = mset [0..<3]
   \<and> int (length (strideIndices 2 3 0)) \<le> \<lceil>real 3 / real 2\<rceil>"
proof -
  have a: "GetPending okDeps (batchSize exampleService) = Inr [msgA, msgB, msgC]"
    by (rule example_fetch)
  have b: "(3::nat) = length [msgA, msgB, msgC]" by simp
  have c: "(0::nat) < 3" by simp
  have d: "(2::nat) = spawned (ProcessBatch exampleService okDeps)"
    by (simp add: example_spawned)
  have e: "(0::nat) < 2" "(2::nat) < 3" by simp_all
  from C3_stride_partition [OF a b c d] a b c d e show ?thesis by blast
qed

section \<open>One message\<close>

lemma processMessage_send_failed:
  assumes "Send d (To msg) (Content msg) = (x, raw, Some e)"
  shows "processMessage d msg =
           (Some (''send message '' @ ID msg @ '': '' @ e), MarkFailed msg raw,
            [SendCall (To msg) (Content msg),
             Log ''[Service] Failed to send message %s: %v. Marking as FAILED.'' [S (ID msg), S e],
             UpdateStatusCall (MarkFailed msg raw)]
            @ (case UpdateStatus d (MarkFailed msg raw) of
                 Some uErr \<Rightarrow> [Log ''[Service] Failed to persist FAILED status for %s: %v'' [S (ID msg), S uErr]]
               | None \<Rightarrow> []))"
  using assms by (simp add: processMessage_def Let_def)

lemma processMessage_update_failed:
  assumes "Send d (To msg) (Content msg) = (x, raw, None)"
    and "UpdateStatus d (MarkSent (Now d) msg x raw) = Some e"
  shows "processMessage d msg =
           (Some (''update status for '' @ ID msg @ '': '' @ e), MarkSent (Now d) msg x raw,
            [SendCall (To msg) (Content msg), UpdateStatusCall (MarkSent (Now d) msg x raw),
             Log ''[Service] Failed to persist SUCCESS status for %s: %v'' [S (ID msg), S e]])"
  using assms by (simp add: processMessage_def Let_def)

lemma processMessage_persisted:
  assumes "Send d (To msg) (Content msg) = (x, raw, None)"
    and "UpdateStatus d (MarkSent (Now d) msg x raw) = None"
  shows "processMessage d msg =
           (None, MarkSent (Now d) msg x raw,
            [SendCall (To msg) (Content msg), UpdateStatusCall (MarkSent (Now d) msg x raw)]
            @ (case cacheSet d of
                 None \<Rightarrow> []
               | Some set_fn \<Rightarrow>
                   if x \<noteq> [] then
                     CacheSetCall (Key SentMessages x) (FormatRFC3339 d (Now d)) (24 * Hour)
                     # (case set_fn (Key SentMessages x) (FormatRFC3339 d (Now d)) (24 * Hour) of
                          Some cErr \<Rightarrow> [Log ''[Service] Failed to cache in Redis for %s: %v'' [S x, S cErr]]
                        | None \<Rightarrow> [])
                   else []))"
  using assms by (simp add: processMessage_def Let_def MarkSent_def split: option.splits)

text \<open>
  Claim C10. \<^verbatim>\<open>processMessage\<close> writes a cache record exactly when the transport
  succeeded, the update of the Success status succeeded, the cache is not nil and the
  external identifier is not empty. When the transport succeeded and the update of the
  status fails, it returns at once with the error of the update, and its last effect is
  the log line of that failure: no cache write follows.
\<close>

theorem C10_cache_only_after_persist:
  assumes "processMessage d msg = (e, m, fx)"
    and "Send d (To msg) (Content msg) = (x, raw, sendErr)"
  shows "((\<exists>k v t. CacheSetCall k v t \<in> set fx) \<longleftrightarrow>
            sendErr = None \<and> UpdateStatus d (MarkSent (Now d) msg x raw) = None
            \<and> cacheSet d \<noteq> None \<and> x \<noteq> [])
       \<and> (\<forall>ue. sendErr = None \<and> UpdateStatus d (MarkSent (Now d) msg x raw) = Some ue \<longrightarrow>
            e = Some (''update status for '' @ ID msg @ '': '' @ ue)
            \<and> fx = [SendCall (To msg) (Content msg), UpdateStatusCall (MarkSent (Now d) msg x raw),
                     Log ''[Service] Failed to persist SUCCESS status for %s: %v'' [S (ID msg), S ue]])"
proof (cases sendErr)
  case (Some se)
  then show ?thesis using assms processMessage_send_failed [of d msg x raw se]
    by (auto split: option.splits)
next
  case None
  show ?thesis
  proof (cases "UpdateStatus d (MarkSent (Now d) msg x raw)")
    case (Some ue)
    then show ?thesis using assms None processMessage_update_failed [of d msg x raw ue]
      by auto
  next
    case upd: None
    show ?thesis using assms None upd processMessage_persisted [of d msg x raw]
      by (auto split: option.splits if_splits)
  qed
qed

lemma send_ok_A: "Send updateFailsDeps (To msgA) (Content msgA) = (''X'', ''accepted'', None)"
  by (simp add: updateFailsDeps_def okDeps_def)

text \<open>
  The transport accepts message \<open>msgA\<close> and the repository refuses the update: no cache
  write. With collaborators that all succeed there is one.
\<close>

theorem C10_cache_only_after_persist_witness:
  "Send updateFailsDeps (To msgA) (Content msgA) = (''X'', ''accepted'', None)
   \<and> UpdateStatus updateFailsDeps (MarkSent (Now updateFailsDeps) msgA ''X'' ''accepted'') = Some ''db down''
   \<and> fst (processMessage updateFailsDeps msgA) = Some ''update status for a: db down''
   \<and> snd (snd (processMessage updateFailsDeps msgA)) =
        [SendCall ''+100'' ''first'',
         UpdateStatusCall (MarkSent (Now updateFailsDeps) msgA ''X'' ''accepted''),
         Log ''[Service] Failed to persist SUCCESS status for %s: %v'' [S ''a'', S ''db down'']]
   \<and> \<not> (\<exists>k v t. CacheSetCall k v t \<in> set (snd (snd (processMessage updateFailsDeps msgA))))
   \<and> (\<exists>k v t. CacheSetCall k v t \<in> set (snd (snd (processMessage okDeps msgA))))"
proof -
  have s: "Send updateFailsDeps (To msgA) (Content msgA) = (''X'', ''accepted'', None)"
    by (rule send_ok_A)
  have p: "processMessage updateFailsDeps msgA =
             (fst (processMessage updateFailsDeps msgA),
              fst (snd (processMessage updateFailsDeps msgA)),
              snd (snd (processMessage updateFailsDeps msgA)))"
    by simp
  have u: "UpdateStatus updateFailsDeps (MarkSent (Now updateFailsDeps) msgA ''X'' ''accepted'') = Some ''db down''"
    by (simp add: updateFailsDeps_def)
  note w = C10_cache_only_after_persist [OF p s]
  have a: "\<not> (\<exists>k v t. CacheSetCall k v t \<in> set (snd (snd (processMessage updateFailsDeps msgA))))"
    using w u by simp
  have b: "fst (processMessage updateFailsDeps msgA) = Some (''update status for '' @ ID msgA @ '': '' @ ''db down'')
      \<and> snd (snd (processMessage updateFailsDeps msgA)) =
        [SendCall (To msgA) (Content msgA),
         UpdateStatusCall (MarkSent (Now updateFailsDeps) msgA ''X'' ''accepted''),
         Log ''[Service] Failed to persist SUCCESS status for %s: %v'' [S (ID msgA), S ''db down'']]"
    using w u by blast
  have s2: "Send okDeps (To msgA) (Content msgA) = (''X'', ''accepted'', None)"
    by (simp add: okDeps_def)
  have p2: "processMessage okDeps msgA =
             (fst (processMessage okDeps msgA),
              fst (snd (processMessage okDeps msgA)),
              snd (snd (processMessage okDeps msgA)))"
    by simp
  have "UpdateStatus okDeps (MarkSent (Now okDeps) msgA ''X'' ''accepted'') = None"
    "cacheSet okDeps \<noteq> None" "''X'' \<noteq> []"
    by (simp_all add: okDeps_def)
  then have c: "\<exists>k v t. CacheSetCall k v t \<in> set (snd (snd (processMessage okDeps msgA)))"
    using C10_cache_only_after_persist [OF p2 s2] by blast
  show ?thesis using s u a b c by (simp add: msgA_def)
qed

text \<open>
  Claim C5, as amended. For every item whose transport \<^verbatim>\<open>Send\<close> succeeds, the item is
  marked Success with the external identifier and the raw response of the transport,
  and \<^verbatim>\<open>UpdateStatus\<close> is called with it. If that update succeeds, the cache is not
  nil and the external identifier is not empty, the next effect is the cache write with
  key \<^verbatim>\<open>sent_messages:<externalId>\<close> and an expiry of 24 hours; a failure of that write
  is logged and \<^verbatim>\<open>processMessage\<close> still returns nil.
\<close>

theorem C5_success_path:
  assumes "Send d (To msg) (Content msg) = (x, raw, None)"
    and "processMessage d msg = (e, m, fx)"
  shows "m = MarkSent (Now d) msg x raw
       \<and> Status m = StatusSuccess \<and> MessageID m = x \<and> RawResponse m = raw
       \<and> UpdateStatusCall m \<in> set fx
       \<and> (\<forall>set_fn. UpdateStatus d m = None \<and> cacheSet d = Some set_fn \<and> x \<noteq> [] \<longrightarrow>
            e = None
            \<and> fx = [SendCall (To msg) (Content msg), UpdateStatusCall m,
                     CacheSetCall (''sent_messages:'' @ x) (FormatRFC3339 d (Now d)) (24 * Hour)]
                    @ (case set_fn (''sent_messages:'' @ x) (FormatRFC3339 d (Now d)) (24 * Hour) of
                         Some cErr \<Rightarrow> [Log ''[Service] Failed to cache in Redis for %s: %v'' [S x, S cErr]]
                       | None \<Rightarrow> []))"
proof (cases "UpdateStatus d (MarkSent (Now d) msg x raw)")
  case (Some ue)
  then show ?thesis using assms processMessage_update_failed [of d msg x raw ue]
    by (auto simp: MarkSent_def)
next
  case None
  then show ?thesis using assms processMessage_persisted [of d msg x raw]
    by (auto simp: MarkSent_def Key_def SentMessages_def)
qed

text \<open>
  The transport accepts \<open>msgA\<close>, the update succeeds and the cache write fails: the
  write is made, its failure is logged, and the result is nil.
\<close>

theorem C5_success_path_witness:
  "Send cacheFailsDeps (To msgA) (Content msgA) = (''X'', ''accepted'', None)
   \<and> UpdateStatus cacheFailsDeps (MarkSent 7 msgA ''X'' ''accepted'') = None
   \<and> fst (processMessage cacheFailsDeps msgA) = None
   \<and> fst (snd (processMessage cacheFailsDeps msgA)) = MarkSent 7 msgA ''X'' ''accepted''
   \<and> Status (fst (snd (processMessage cacheFailsDeps msgA))) = StatusSuccess
   \<and> MessageID (fst (snd (processMessage cacheFailsDeps msgA))) = ''X''
   \<and> snd (snd (processMessage cacheFailsDeps msgA)) =
       [SendCall ''+100'' ''first'',
        UpdateStatusCall (MarkSent 7 msgA ''X'' ''accepted''),
        CacheSetCall ''sent_messages:X'' ''1970-01-01T00:00:00Z'' (24 * Hour),
        Log ''[Service] Failed to cache in Redis for %s: %v'' [S ''X'', S ''redis down'']]"
proof -
  have s: "Send cacheFailsDeps (To msgA) (Content msgA) = (''X'', ''accepted'', None)"
    by (simp add: cacheFailsDeps_def okDeps_def)
  have p: "processMessage cacheFailsDeps msgA =
             (fst (processMessage cacheFailsDeps msgA),
              fst (snd (processMessage cacheFailsDeps msgA)),
              snd (snd (processMessage cacheFailsDeps msgA)))"
    by simp
  note w = C5_success_path [OF s p]
  have m: "fst (snd (processMessage cacheFailsDeps msgA)) = MarkSent 7 msgA ''X'' ''accepted''"
    using w by (simp add: cacheFailsDeps_def okDeps_def)
  have u: "UpdateStatus cacheFailsDeps (MarkSent 7 msgA ''X'' ''accepted'') = None"
    by (simp add: cacheFailsDeps_def okDeps_def)
  have c: "cacheSet cacheFailsDeps = Some (\<lambda>k v ttl. Some ''redis down'')"
    by (simp add: cacheFailsDeps_def)
  have x: "''X'' \<noteq> []" by simp
  have "fst (processMessage cacheFailsDeps msgA) = None
      \<and> snd (snd (processMessage cacheFailsDeps msgA)) =
         [SendCall (To msgA) (Content msgA),
          UpdateStatusCall (fst (snd (processMessage cacheFailsDeps msgA))),
          CacheSetCall (''sent_messages:'' @ ''X'') (FormatRFC3339 cacheFailsDeps (Now cacheFailsDeps)) (24 * Hour)]
         @ (case (\<lambda>k v ttl. Some ''redis down'') (''sent_messages:'' @ ''X'')
                   (FormatRFC3339 cacheFailsDeps (Now cacheFailsDeps)) (24 * Hour) of
              Some cErr \<Rightarrow> [Log ''[Service] Failed to cache in Redis for %s: %v'' [S ''X'', S cErr]]
            | None \<Rightarrow> [])"
    using w u c x m by metis
  then show ?thesis using s u m w
    by (simp add: cacheFailsDeps_def okDeps_def msgA_def)
qed

text \<open>
  Claim C5 as it is stated fails: the transport accepts \<open>msgA\<close> and the repository
  refuses the update of its status; \<^verbatim>\<open>processMessage\<close> returns the error of the update
  and writes no cache record.
\<close>

theorem C5_counterexample:
  "Send updateFailsDeps (To msgA) (Content msgA) = (''X'', ''accepted'', None)
   \<and> processMessage updateFailsDeps msgA =
       (Some ''update status for a: db down'',
        MarkSent 7 msgA ''X'' ''accepted'',
        [SendCall ''+100'' ''first'',
         UpdateStatusCall (MarkSent 7 msgA ''X'' ''accepted''),
         Log ''[Service] Failed to persist SUCCESS status for %s: %v'' [S ''a'', S ''db down'']])
   \<and> CacheSetCall ''sent_messages:X'' ''1970-01-01T00:00:00Z'' (24 * Hour)
       \<notin> set (snd (snd (processMessage updateFailsDeps msgA)))"
  by (simp add: processMessage_def updateFailsDeps_def okDeps_def msgA_def MarkSent_def Let_def)

section \<open>One batch\<close>

lemma worker_Processed:
  "Processed i e m fx \<in> set (worker d msgs wc wid j) \<Longrightarrow>
     i < length msgs \<and>
     (\<exists>fx0. processMessage d (msgs ! i) = (e, m, fx0) \<and>
        fx = [Log ''[Worker %d] is processing.'' [D (int i)]] @ fx0
             @ (case e of
                  Some x \<Rightarrow> [Log ''[Worker %d] Failed to process %s: %v'' [D wid, S (ID (msgs ! i)), S x]]
                | None \<Rightarrow> []))"
proof (induction d msgs wc wid j rule: worker.induct)
  case (1 d msgs wc wid j)
  show ?case
  proof (cases "j < length msgs \<and> 0 < wc")
    case False
    then show ?thesis using "1.prems" by (simp add: worker_done)
  next
    case True
    then have c: "j < length msgs" "0 < wc" by auto
    show ?thesis
    proof (cases "ctxErr d j")
      case True
      then show ?thesis using "1.prems" c by (simp add: worker_stopped)
    next
      case False
      obtain e0 m0 f0 where pm: "processMessage d (msgs ! j) = (e0, m0, f0)"
        by (cases "processMessage d (msgs ! j)") auto
      note st = worker_step [OF c False pm, of wid]
      from "1.prems" st consider
          (here) "i = j" "e = e0" "m = m0"
            "fx = [Log ''[Worker %d] is processing.'' [D (int j)]] @ f0
                 @ (case e0 of
                      Some x \<Rightarrow> [Log ''[Worker %d] Failed to process %s: %v'' [D wid, S (ID (msgs ! j)), S x]]
                    | None \<Rightarrow> [])"
        | (later) "Processed i e m fx \<in> set (worker d msgs wc wid (j + wc))"
        by auto
      then show ?thesis
      proof cases
        case here
        then show ?thesis using c pm by (cases e0) simp_all
      next
        case later
        then show ?thesis using "1.IH" [OF True False refl] pm by auto
      qed
    qed
  qed
qed

lemma length_fold_applyStep: "length (fold applyStep st ms) = length ms"
proof (induction st arbitrary: ms)
  case Nil
  then show ?case by simp
next
  case (Cons x st)
  then show ?case by (cases x) simp_all
qed

lemma fold_applyStep_untouched:
  "i \<notin> set (List.map_filter processedIndex st) \<Longrightarrow> fold applyStep st ms ! i = ms ! i"
proof (induction st arbitrary: ms)
  case Nil
  then show ?case by simp
next
  case (Cons x st)
  then show ?case by (cases x) (auto simp: List.map_filter_simps)
qed

lemma fold_applyStep_hit:
  "distinct (List.map_filter processedIndex st) \<Longrightarrow> Processed i e m fx \<in> set st \<Longrightarrow>
   i < length ms \<Longrightarrow> fold applyStep st ms ! i = m"
proof (induction st arbitrary: ms)
  case Nil
  then show ?case by simp
next
  case (Cons x st)
  show ?case
  proof (cases "x = Processed i e m fx")
    case True
    then have "i \<notin> set (List.map_filter processedIndex st)"
      using Cons.prems(1) by (simp add: List.map_filter_simps)
    then have "fold applyStep st (ms[i := m]) ! i = ms[i := m] ! i"
      by (rule fold_applyStep_untouched)
    then show ?thesis using True Cons.prems(3) by simp
  next
    case False
    then have mem: "Processed i e m fx \<in> set st" using Cons.prems(2) by simp
    have d: "distinct (List.map_filter processedIndex st)"
      using Cons.prems(1) by (cases x) (simp_all add: List.map_filter_simps)
    have "i < length (applyStep x ms)" using Cons.prems(3) by (cases x) simp_all
    then have "fold applyStep st (applyStep x ms) ! i = m"
      using Cons.IH [OF d mem] by blast
    then show ?thesis by simp
  qed
qed

lemma map_filter_concat:
  "List.map_filter f (concat xss) = concat (map (List.map_filter f) xss)"
  by (induction xss) (simp_all add: List.map_filter_def)

lemma distinct_concat_takeWhile:
  "distinct (concat (map f ks)) \<Longrightarrow> distinct (concat (map (\<lambda>k. takeWhile P (f k)) ks))"
proof (induction ks)
  case Nil
  then show ?case by simp
next
  case (Cons k ks)
  have "set (takeWhile P (f k)) \<subseteq> set (f k)" by (auto dest: set_takeWhileD)
  moreover have "set (concat (map (\<lambda>k. takeWhile P (f k)) ks)) \<subseteq> set (concat (map f ks))"
    by (auto dest: set_takeWhileD)
  ultimately show ?case using Cons by (auto simp: distinct_takeWhile)
qed

lemma distinct_processed:
  assumes "0 < wc" and "wc \<le> length msgs"
  shows "distinct (List.map_filter processedIndex
           (concat (map (\<lambda>w. worker d msgs wc (int w + 1) w) [0..<wc])))"
proof -
  have "distinct (concat (map (strideIndices wc (length msgs)) [0..<wc]))"
    using stride_cover [OF assms] mset_eq_imp_distinct_iff [of _ "[0..<length msgs]"] by auto
  then have "distinct (concat (map (\<lambda>k. takeWhile (\<lambda>j. \<not> ctxErr d j) (strideIndices wc (length msgs) k)) [0..<wc]))"
    by (rule distinct_concat_takeWhile)
  then show ?thesis
    by (simp add: map_filter_concat comp_def processed_worker)
qed

lemma ProcessBatch_err:
  "err (ProcessBatch s d) =
     (case GetPending d (batchSize s) of
        Inl e \<Rightarrow> Some (''failed to fetch pending messages: '' @ e)
      | Inr msgs \<Rightarrow> None)"
  by (simp add: ProcessBatch_def Let_def split: sum.splits)

lemma ProcessBatch_item:
  assumes fetch: "GetPending d (batchSize s) = Inr msgs"
    and t: "t \<in> set (traces (ProcessBatch s d))"
    and p: "Processed i e m fx \<in> set t"
  shows "i < length msgs \<and> messages (ProcessBatch s d) ! i = m \<and>
         (\<exists>fx0 wid. processMessage d (msgs ! i) = (e, m, fx0) \<and>
            fx = [Log ''[Worker %d] is processing.'' [D (int i)]] @ fx0
                 @ (case e of
                      Some x \<Rightarrow> [Log ''[Worker %d] Failed to process %s: %v'' [D wid, S (ID (msgs ! i)), S x]]
                    | None \<Rightarrow> []))"
proof (cases "msgs = []")
  case True
  then show ?thesis using fetch t by (simp add: ProcessBatch_def)
next
  case False
  define wc where "wc = nat (workerCount (maxWorkers s) (int (length msgs)))"
  define ts where "ts = map (\<lambda>w. worker d msgs wc (int w + 1) w) [0..<wc]"
  have pb: "traces (ProcessBatch s d) = ts" "messages (ProcessBatch s d) = fold applyStep (concat ts) msgs"
    using ProcessBatch_nonempty [OF fetch False] by (simp_all add: Let_def wc_def ts_def)
  have "0 < length msgs" using False by simp
  then have "1 \<le> workerCount (maxWorkers s) (int (length msgs))"
    "workerCount (maxWorkers s) (int (length msgs)) \<le> int (length msgs)"
    using workerCount_bounds [of "int (length msgs)" "maxWorkers s"] by auto
  then have wc: "0 < wc" "wc \<le> length msgs" by (auto simp: wc_def)
  from t pb obtain w where w: "t = worker d msgs wc (int w + 1) w" by (auto simp: ts_def)
  from worker_Processed [of i e m fx d msgs wc "int w + 1" w] p w
  have i: "i < length msgs" and px: "\<exists>fx0 wid. processMessage d (msgs ! i) = (e, m, fx0) \<and>
            fx = [Log ''[Worker %d] is processing.'' [D (int i)]] @ fx0
                 @ (case e of
                      Some x \<Rightarrow> [Log ''[Worker %d] Failed to process %s: %v'' [D wid, S (ID (msgs ! i)), S x]]
                    | None \<Rightarrow> [])"
    by blast+
  have "Processed i e m fx \<in> set (concat ts)" using t p pb by auto
  moreover have "distinct (List.map_filter processedIndex (concat ts))"
    unfolding ts_def using wc by (rule distinct_processed)
  ultimately have "fold applyStep (concat ts) msgs ! i = m"
    using i fold_applyStep_hit by blast
  then show ?thesis using i px pb by simp
qed

lemma processed_mem:
  "i \<in> set (List.map_filter processedIndex st) \<Longrightarrow> \<exists>e m fx. Processed i e m fx \<in> set st"
proof (induction st)
  case Nil
  then show ?case by (simp add: List.map_filter_simps)
next
  case (Cons x st)
  then show ?case by (cases x) (auto simp: List.map_filter_simps)
qed

lemma all_processed:
  assumes fetch: "GetPending d (batchSize s) = Inr msgs"
    and nocancel: "\<forall>j. \<not> ctxErr d j"
    and i: "i < length msgs"
  shows "\<exists>t\<in>set (traces (ProcessBatch s d)). \<exists>e m fx. Processed i e m fx \<in> set t"
proof -
  have ne: "msgs \<noteq> []" using i by (cases msgs) simp_all
  define wc where "wc = nat (workerCount (maxWorkers s) (int (length msgs)))"
  define ts where "ts = map (\<lambda>w. worker d msgs wc (int w + 1) w) [0..<wc]"
  have pb: "traces (ProcessBatch s d) = ts"
    using ProcessBatch_nonempty [OF fetch ne] by (simp add: Let_def wc_def ts_def)
  have "0 < length msgs" using ne by simp
  then have "1 \<le> workerCount (maxWorkers s) (int (length msgs))"
    "workerCount (maxWorkers s) (int (length msgs)) \<le> int (length msgs)"
    using workerCount_bounds [of "int (length msgs)" "maxWorkers s"] by auto
  then have wc: "0 < wc" "wc \<le> length msgs" by (auto simp: wc_def)
  have "List.map_filter processedIndex (concat ts)
          = concat (map (\<lambda>k. takeWhile (\<lambda>j. \<not> ctxErr d j) (strideIndices wc (length msgs) k)) [0..<wc])"
    by (simp add: ts_def map_filter_concat comp_def processed_worker)
  also have "\<dots> = concat (map (strideIndices wc (length msgs)) [0..<wc])"
  proof -
    have tw: "takeWhile (\<lambda>j. \<not> ctxErr d j) xs = xs" for xs
      using nocancel by (induction xs) simp_all
    show ?thesis unfolding tw by (rule refl)
  qed
  finally have "set (List.map_filter processedIndex (concat ts)) = set [0..<length msgs]"
    using stride_cover [OF wc] by (metis mset_eq_setD)
  then have "i \<in> set (List.map_filter processedIndex (concat ts))" using i by simp
  then obtain e m fx where "Processed i e m fx \<in> set (concat ts)"
    using processed_mem by blast
  then show ?thesis using pb by auto
qed

lemma ProcessBatch_joined:
  assumes fetch: "GetPending d (batchSize s) = Inr msgs" and ne: "msgs \<noteq> []"
  shows "err (ProcessBatch s d) = None
        \<and> 0 < spawned (ProcessBatch s d)
        \<and> length (traces (ProcessBatch s d)) = spawned (ProcessBatch s d)
        \<and> (\<forall>k<spawned (ProcessBatch s d).
              List.map_filter processedIndex (traces (ProcessBatch s d) ! k)
                = takeWhile (\<lambda>j. \<not> ctxErr d j)
                    (strideIndices (spawned (ProcessBatch s d)) (length msgs) k))
        \<and> (\<forall>t\<in>set (traces (ProcessBatch s d)). \<forall>i e m fx. Processed i e m fx \<in> set t \<longrightarrow>
              i < length msgs
              \<and> messages (ProcessBatch s d) ! i = m
              \<and> e = fst (processMessage d (msgs ! i))
              \<and> m = fst (snd (processMessage d (msgs ! i)))
              \<and> set (snd (snd (processMessage d (msgs ! i)))) \<subseteq> set fx)
        \<and> ((\<forall>j. \<not> ctxErr d j) \<longrightarrow>
              (\<forall>i<length msgs. \<exists>t\<in>set (traces (ProcessBatch s d)). \<exists>fx.
                  Processed i (fst (processMessage d (msgs ! i)))
                    (fst (snd (processMessage d (msgs ! i)))) fx \<in> set t))"
proof -
  let ?r = "ProcessBatch s d"
  note pb = ProcessBatch_nonempty [OF fetch ne]
  have e: "err ?r = None" using fetch by (simp add: ProcessBatch_err)
  have sp: "spawned ?r = nat (workerCount (maxWorkers s) (int (length msgs)))"
    by (simp add: pb Let_def)
  have "0 < length msgs" using ne by simp
  then have "1 \<le> workerCount (maxWorkers s) (int (length msgs))"
    using workerCount_bounds [of "int (length msgs)" "maxWorkers s"] by auto
  then have pos: "0 < spawned ?r" using sp by simp
  have tr: "traces ?r = map (\<lambda>w. worker d msgs (spawned ?r) (int w + 1) w) [0..<spawned ?r]"
    by (simp add: pb Let_def)
  have len: "length (traces ?r) = spawned ?r"
    by (subst tr) simp
  have strides: "\<forall>k<spawned ?r.
            List.map_filter processedIndex (traces ?r ! k)
              = takeWhile (\<lambda>j. \<not> ctxErr d j) (strideIndices (spawned ?r) (length msgs) k)"
  proof (intro allI impI)
    fix k assume k: "k < spawned ?r"
    have "traces ?r ! k = map (\<lambda>w. worker d msgs (spawned ?r) (int w + 1) w) [0..<spawned ?r] ! k"
      by (subst tr) (rule refl)
    also have "\<dots> = worker d msgs (spawned ?r) (int k + 1) k" using k by simp
    finally show "List.map_filter processedIndex (traces ?r ! k)
              = takeWhile (\<lambda>j. \<not> ctxErr d j) (strideIndices (spawned ?r) (length msgs) k)"
      by (simp only: processed_worker)
  qed
  have item: "i < length msgs
            \<and> messages ?r ! i = m
            \<and> e = fst (processMessage d (msgs ! i))
            \<and> m = fst (snd (processMessage d (msgs ! i)))
            \<and> set (snd (snd (processMessage d (msgs ! i)))) \<subseteq> set fx"
    if t: "t \<in> set (traces ?r)" and p: "Processed i e m fx \<in> set t" for t i e m fx
  proof -
    from ProcessBatch_item [OF fetch t p] obtain fx0 wid where
      i: "i < length msgs" and fin: "messages ?r ! i = m"
      and pm: "processMessage d (msgs ! i) = (e, m, fx0)"
      and fx: "fx = [Log ''[Worker %d] is processing.'' [D (int i)]] @ fx0
                 @ (case e of
                      Some x \<Rightarrow> [Log ''[Worker %d] Failed to process %s: %v'' [D wid, S (ID (msgs ! i)), S x]]
                    | None \<Rightarrow> [])"
      by blast
    have "set fx0 \<subseteq> set fx" by (subst fx) auto
    then show ?thesis using i fin pm by simp
  qed
  have items: "\<forall>t\<in>set (traces ?r). \<forall>i e m fx. Processed i e m fx \<in> set t \<longrightarrow>
            i < length msgs
            \<and> messages ?r ! i = m
            \<and> e = fst (processMessage d (msgs ! i))
            \<and> m = fst (snd (processMessage d (msgs ! i)))
            \<and> set (snd (snd (processMessage d (msgs ! i)))) \<subseteq> set fx"
    using item by (intro ballI allI impI) 
  have all: "(\<forall>j. \<not> ctxErr d j) \<longrightarrow>
            (\<forall>i<length msgs. \<exists>t\<in>set (traces ?r). \<exists>fx.
                Processed i (fst (processMessage d (msgs ! i)))
                  (fst (snd (processMessage d (msgs ! i)))) fx \<in> set t)"
  proof (intro impI allI)
    fix i assume nc: "\<forall>j. \<not> ctxErr d j" and i: "i < length msgs"
    from all_processed [OF fetch nc i] obtain t e m fx where
      t: "t \<in> set (traces ?r)" and p: "Processed i e m fx \<in> set t" by blast
    from item [OF t p] have "e = fst (processMessage d (msgs ! i))"
      "m = fst (snd (processMessage d (msgs ! i)))" by simp_all
    then have "Processed i (fst (processMessage d (msgs ! i)))
                  (fst (snd (processMessage d (msgs ! i)))) fx \<in> set t" using p by simp
    then show "\<exists>t\<in>set (traces ?r). \<exists>fx.
                Processed i (fst (processMessage d (msgs ! i)))
                  (fst (snd (processMessage d (msgs ! i)))) fx \<in> set t"
      using t by (intro bexI [of _ t] exI [of _ fx])
  qed
  show ?thesis by (intro conjI) (rule e pos len strides items all)+
qed

text \<open>
  Claim C4. \<^verbatim>\<open>ProcessBatch\<close> returns an error if and only if the fetch of the pending
  items fails. When the fetch returns no item it returns nil with no worker started.
  When the fetch returns items it returns nil after the workers have joined: at least
  one worker was started, there is one finished trace per started worker, the worker
  \<open>k\<close> went through the indices of its stride up to the first one at which the context
  was cancelled, every item that a worker processed carries the error, the message
  and the effects that \<^verbatim>\<open>processMessage\<close> gives for it, whatever the transport, the
  repository and the cache answered, and when the context is not cancelled every
  fetched item was processed by some worker.
\<close>

theorem C4_error_iff_fetch_fails:
  "(err (ProcessBatch s d) \<noteq> None \<longleftrightarrow> (\<exists>e. GetPending d (batchSize s) = Inl e))
   \<and> (GetPending d (batchSize s) = Inr [] \<longrightarrow>
        ProcessBatch s d =
          \<lparr>err = None, spawned = 0, traces = [], messages = [],
           batchLog = [Log ''[Service] No pending messages to process.'' []]\<rparr>)
   \<and> (\<forall>msgs. GetPending d (batchSize s) = Inr msgs \<and> msgs \<noteq> [] \<longrightarrow>
        err (ProcessBatch s d) = None
        \<and> 0 < spawned (ProcessBatch s d)
        \<and> length (traces (ProcessBatch s d)) = spawned (ProcessBatch s d)
        \<and> (\<forall>k<spawned (ProcessBatch s d).
              List.map_filter processedIndex (traces (ProcessBatch s d) ! k)
                = takeWhile (\<lambda>j. \<not> ctxErr d j)
                    (strideIndices (spawned (ProcessBatch s d)) (length msgs) k))
        \<and> (\<forall>t\<in>set (traces (ProcessBatch s d)). \<forall>i e m fx. Processed i e m fx \<in> set t \<longrightarrow>
              i < length msgs
              \<and> messages (ProcessBatch s d) ! i = m
              \<and> e = fst (processMessage d (msgs ! i))
              \<and> m = fst (snd (processMessage d (msgs ! i)))
              \<and> set (snd (snd (processMessage d (msgs ! i)))) \<subseteq> set fx)
        \<and> ((\<forall>j. \<not> ctxErr d j) \<longrightarrow>
              (\<forall>i<length msgs. \<exists>t\<in>set (traces (ProcessBatch s d)). \<exists>fx.
                  Processed i (fst (processMessage d (msgs ! i)))
                    (fst (snd (processMessage d (msgs ! i)))) fx \<in> set t)))"
  (is "?A \<and> ?B \<and> ?C")
proof -
  have 1: ?A
    by (cases "GetPending d (batchSize s)") (simp_all add: ProcessBatch_err)
  have 2: ?B
    by (simp add: ProcessBatch_def)
  have 3: ?C
    by (intro allI impI, elim conjE, rule ProcessBatch_joined)
  show ?thesis by (intro conjI) (rule 1 2 3)+
qed

text \<open>
  A fetch that fails, a fetch that returns nothing, a batch of three items whose
  transport and status updates all fail (the third item carries the error of the
  transport and the batch returns nil), a batch whose status updates fail, and a batch
  whose cache writes fail.
\<close>

theorem C4_error_iff_fetch_fails_witness:
  "GetPending fetchFailsDeps (batchSize exampleService) = Inl ''db down''
   \<and> err (ProcessBatch exampleService fetchFailsDeps) \<noteq> None
   \<and> GetPending nothingPendingDeps (batchSize exampleService) = Inr []
   \<and> ProcessBatch exampleService nothingPendingDeps =
       \<lparr>err = None, spawned = 0, traces = [], messages = [],
        batchLog = [Log ''[Service] No pending messages to process.'' []]\<rparr>
   \<and> GetPending sendFailsDeps (batchSize exampleService) = Inr [msgA, msgB, msgC]
   \<and> err (ProcessBatch exampleService sendFailsDeps) = None
   \<and> 0 < spawned (ProcessBatch exampleService sendFailsDeps)
   \<and> fst (processMessage sendFailsDeps msgC)
       = Some ''send message c: webhook returned non-2xx status''
   \<and> (\<exists>t\<in>set (traces (ProcessBatch exampleService sendFailsDeps)). \<exists>fx.
         Processed 2 (Some ''send message c: webhook returned non-2xx status'')
           (fst (snd (processMessage sendFailsDeps msgC))) fx \<in> set t)
   \<and> GetPending updateFailsDeps (batchSize exampleService) = Inr [msgA, msgB, msgC]
   \<and> err (ProcessBatch exampleService updateFailsDeps) = None
   \<and> 0 < spawned (ProcessBatch exampleService updateFailsDeps)
   \<and> GetPending cacheFailsDeps (batchSize exampleService) = Inr [msgA, msgB, msgC]
   \<and> err (ProcessBatch exampleService cacheFailsDeps) = None
   \<and> 0 < spawned (ProcessBatch exampleService cacheFailsDeps)"
proof -
  have a: "GetPending fetchFailsDeps (batchSize exampleService) = Inl ''db down''"
    by (simp add: fetchFailsDeps_def)
  have b: "GetPending nothingPendingDeps (batchSize exampleService) = Inr []"
    by (simp add: nothingPendingDeps_def)
  have c: "GetPending sendFailsDeps (batchSize exampleService) = Inr [msgA, msgB, msgC]"
    by (simp add: sendFailsDeps_def okDeps_def exampleService_def NewMessageService_def)
  have c': "GetPending updateFailsDeps (batchSize exampleService) = Inr [msgA, msgB, msgC]"
    by (simp add: updateFailsDeps_def okDeps_def exampleService_def NewMessageService_def)
  have c'': "GetPending cacheFailsDeps (batchSize exampleService) = Inr [msgA, msgB, msgC]"
    by (simp add: cacheFailsDeps_def okDeps_def exampleService_def NewMessageService_def)
  have ne: "[msgA, msgB, msgC] \<noteq> []" by simp
  have nc: "\<not> ctxErr sendFailsDeps j" for j by (simp add: sendFailsDeps_def okDeps_def)
  have i: "(2::nat) < length [msgA, msgB, msgC]" by simp
  have pm: "fst (processMessage sendFailsDeps msgC)
      = Some ''send message c: webhook returned non-2xx status''"
    by (simp add: processMessage_def sendFailsDeps_def okDeps_def msgC_def Let_def)
  note w1 = C4_error_iff_fetch_fails [of exampleService fetchFailsDeps]
  note w2 = C4_error_iff_fetch_fails [of exampleService nothingPendingDeps]
  note w3 = C4_error_iff_fetch_fails [of exampleService sendFailsDeps]
  note w4 = C4_error_iff_fetch_fails [of exampleService updateFailsDeps]
  note w5 = C4_error_iff_fetch_fails [of exampleService cacheFailsDeps]
  have "\<exists>e. GetPending fetchFailsDeps (batchSize exampleService) = Inl e" using a by (rule exI)
  then have p1: "err (ProcessBatch exampleService fetchFailsDeps) \<noteq> None"
    using w1 [THEN conjunct1] by (rule iffD2 [rotated])
  have p2: "ProcessBatch exampleService nothingPendingDeps =
       \<lparr>err = None, spawned = 0, traces = [], messages = [],
        batchLog = [Log ''[Service] No pending messages to process.'' []]\<rparr>"
    using w2 [THEN conjunct2, THEN conjunct1] b by (rule mp)
  note t3 = w3 [THEN conjunct2, THEN conjunct2, rule_format, OF conjI, OF c ne]
  note t4 = w4 [THEN conjunct2, THEN conjunct2, rule_format, OF conjI, OF c' ne]
  note t5 = w5 [THEN conjunct2, THEN conjunct2, rule_format, OF conjI, OF c'' ne]
  have p3: "err (ProcessBatch exampleService sendFailsDeps) = None"
    by (rule t3 [THEN conjunct1])
  have p3': "0 < spawned (ProcessBatch exampleService sendFailsDeps)"
    by (rule t3 [THEN conjunct2, THEN conjunct1])
  note allp = t3 [THEN conjunct2, THEN conjunct2, THEN conjunct2, THEN conjunct2, THEN conjunct2,
      rule_format, OF nc i]
  have p4: "\<exists>t\<in>set (traces (ProcessBatch exampleService sendFailsDeps)). \<exists>fx.
         Processed 2 (Some ''send message c: webhook returned non-2xx status'')
           (fst (snd (processMessage sendFailsDeps msgC))) fx \<in> set t"
    using allp pm by simp
  have p5: "err (ProcessBatch exampleService updateFailsDeps) = None"
    by (rule t4 [THEN conjunct1])
  have p5': "0 < spawned (ProcessBatch exampleService updateFailsDeps)"
    by (rule t4 [THEN conjunct2, THEN conjunct1])
  have p6: "err (ProcessBatch exampleService cacheFailsDeps) = None"
    by (rule t5 [THEN conjunct1])
  have p6': "0 < spawned (ProcessBatch exampleService cacheFailsDeps)"
    by (rule t5 [THEN conjunct2, THEN conjunct1])
  show ?thesis by (intro conjI) (rule a p1 b p2 c p3 p3' pm p4 c' p5 p5' c'' p6 p6')+
qed

text \<open>
  Claim C6. If the transport fails for every item of a batch, \<^verbatim>\<open>ProcessBatch\<close>
  returns no error, and every item that a worker processed is left with status Failed
  and the raw response of the transport; \<^verbatim>\<open>UpdateStatus\<close> was called with the item in
  that state, and when that call fails the failure is among the log lines of the item,
  with no effect on the result of the batch. When the context is not cancelled during
  the batch every fetched item is processed, so every one of them is left Failed.
\<close>

theorem C6_all_failed:
  assumes fetch: "GetPending d (batchSize s) = Inr msgs"
    and allfail: "\<forall>i<length msgs. snd (snd (Send d (To (msgs ! i)) (Content (msgs ! i)))) \<noteq> None"
  shows "err (ProcessBatch s d) = None
       \<and> (\<forall>t\<in>set (traces (ProcessBatch s d)). \<forall>i e m fx. Processed i e m fx \<in> set t \<longrightarrow>
            i < length msgs
            \<and> messages (ProcessBatch s d) ! i = m
            \<and> Status m = StatusFailed
            \<and> RawResponse m = fst (snd (Send d (To (msgs ! i)) (Content (msgs ! i))))
            \<and> UpdateStatusCall m \<in> set fx
            \<and> (\<forall>ue. UpdateStatus d m = Some ue \<longrightarrow>
                 Log ''[Service] Failed to persist FAILED status for %s: %v'' [S (ID (msgs ! i)), S ue]
                   \<in> set fx))
       \<and> ((\<forall>j. \<not> ctxErr d j) \<longrightarrow>
            (\<forall>i<length msgs.
               Status (messages (ProcessBatch s d) ! i) = StatusFailed
               \<and> RawResponse (messages (ProcessBatch s d) ! i)
                   = fst (snd (Send d (To (msgs ! i)) (Content (msgs ! i))))))"
proof -
  have a: "err (ProcessBatch s d) = None" using fetch by (simp add: ProcessBatch_err)
  have b: "\<forall>t\<in>set (traces (ProcessBatch s d)). \<forall>i e m fx. Processed i e m fx \<in> set t \<longrightarrow>
            i < length msgs
            \<and> messages (ProcessBatch s d) ! i = m
            \<and> Status m = StatusFailed
            \<and> RawResponse m = fst (snd (Send d (To (msgs ! i)) (Content (msgs ! i))))
            \<and> UpdateStatusCall m \<in> set fx
            \<and> (\<forall>ue. UpdateStatus d m = Some ue \<longrightarrow>
                 Log ''[Service] Failed to persist FAILED status for %s: %v'' [S (ID (msgs ! i)), S ue]
                   \<in> set fx)"
  proof (intro ballI allI impI)
    fix t i e m fx
    assume t: "t \<in> set (traces (ProcessBatch s d))" and p: "Processed i e m fx \<in> set t"
    from ProcessBatch_item [OF fetch t p] obtain fx0 wid where
      i: "i < length msgs" and fin: "messages (ProcessBatch s d) ! i = m"
      and pm: "processMessage d (msgs ! i) = (e, m, fx0)"
      and fx: "fx = [Log ''[Worker %d] is processing.'' [D (int i)]] @ fx0
                   @ (case e of
                        Some x \<Rightarrow> [Log ''[Worker %d] Failed to process %s: %v'' [D wid, S (ID (msgs ! i)), S x]]
                      | None \<Rightarrow> [])"
      by blast
    obtain x raw se where snd: "Send d (To (msgs ! i)) (Content (msgs ! i)) = (x, raw, Some se)"
      using allfail i by (cases "Send d (To (msgs ! i)) (Content (msgs ! i))") auto
    note pf = processMessage_send_failed [OF snd]
    have m: "m = MarkFailed (msgs ! i) raw" using pm pf by simp
    have fx0: "fx0 = [SendCall (To (msgs ! i)) (Content (msgs ! i)),
               Log ''[Service] Failed to send message %s: %v. Marking as FAILED.'' [S (ID (msgs ! i)), S se],
               UpdateStatusCall m]
              @ (case UpdateStatus d m of
                   Some uErr \<Rightarrow> [Log ''[Service] Failed to persist FAILED status for %s: %v'' [S (ID (msgs ! i)), S uErr]]
                 | None \<Rightarrow> [])"
      using pm pf m by simp
    have c1: "Status m = StatusFailed" using m by (simp add: MarkFailed_def)
    have c2: "RawResponse m = fst (snd (Send d (To (msgs ! i)) (Content (msgs ! i))))"
      using m snd by (simp add: MarkFailed_def)
    have c3: "UpdateStatusCall m \<in> set fx" using fx fx0 by simp
    have c4: "\<forall>ue. UpdateStatus d m = Some ue \<longrightarrow>
                 Log ''[Service] Failed to persist FAILED status for %s: %v'' [S (ID (msgs ! i)), S ue]
                   \<in> set fx"
      using fx fx0 by simp
    show "i < length msgs
            \<and> messages (ProcessBatch s d) ! i = m
            \<and> Status m = StatusFailed
            \<and> RawResponse m = fst (snd (Send d (To (msgs ! i)) (Content (msgs ! i))))
            \<and> UpdateStatusCall m \<in> set fx
            \<and> (\<forall>ue. UpdateStatus d m = Some ue \<longrightarrow>
                 Log ''[Service] Failed to persist FAILED status for %s: %v'' [S (ID (msgs ! i)), S ue]
                   \<in> set fx)"
      using i fin c1 c2 c3 c4 by blast
  qed
  have c: "(\<forall>j. \<not> ctxErr d j) \<longrightarrow>
            (\<forall>i<length msgs.
               Status (messages (ProcessBatch s d) ! i) = StatusFailed
               \<and> RawResponse (messages (ProcessBatch s d) ! i)
                   = fst (snd (Send d (To (msgs ! i)) (Content (msgs ! i)))))"
  proof (intro impI allI)
    fix i assume nc: "\<forall>j. \<not> ctxErr d j" and i: "i < length msgs"
    from all_processed [OF fetch nc i] obtain t e m fx where
      "t \<in> set (traces (ProcessBatch s d))" "Processed i e m fx \<in> set t" by blast
    then show "Status (messages (ProcessBatch s d) ! i) = StatusFailed
               \<and> RawResponse (messages (ProcessBatch s d) ! i)
                   = fst (snd (Send d (To (msgs ! i)) (Content (msgs ! i))))"
      using b by blast
  qed
  show ?thesis using a b c by blast
qed

text \<open>The same batch: item 0 is left Failed with the raw response of the transport.\<close>

theorem C6_all_failed_witness:
  "GetPending sendFailsDeps (batchSize exampleService) = Inr [msgA, msgB, msgC]
   \<and> snd (snd (Send sendFailsDeps (To msgA) (Content msgA))) \<noteq> None
   \<and> snd (snd (Send sendFailsDeps (To msgB) (Content msgB))) \<noteq> None
   \<and> snd (snd (Send sendFailsDeps (To msgC) (Content msgC))) \<noteq> None
   \<and> UpdateStatus sendFailsDeps (MarkFailed msgA ''busy'') = Some ''db down''
   \<and> err (ProcessBatch exampleService sendFailsDeps) = None
   \<and> messages (ProcessBatch exampleService sendFailsDeps) ! 0 = MarkFailed msgA ''busy''
   \<and> Status (MarkFailed msgA ''busy'') = StatusFailed
   \<and> RawResponse (MarkFailed msgA ''busy'') = ''busy''"
proof -
  let ?fx = "[Log ''[Worker %d] is processing.'' [D 0],
          SendCall ''+100'' ''first'',
          Log ''[Service] Failed to send message %s: %v. Marking as FAILED.''
           [S ''a'', S ''webhook returned non-2xx status''],
          UpdateStatusCall (MarkFailed msgA ''busy''),
          Log ''[Service] Failed to persist FAILED status for %s: %v''
           [S ''a'', S ''db down''],
          Log ''[Worker %d] Failed to process %s: %v''
           [D 1, S ''a'', S ''send message a: webhook returned non-2xx status'']]"
  have fetch: "GetPending sendFailsDeps (batchSize exampleService) = Inr [msgA, msgB, msgC]"
    by (simp add: sendFailsDeps_def okDeps_def exampleService_def NewMessageService_def)
  have fails: "\<forall>i<length [msgA, msgB, msgC].
      snd (snd (Send sendFailsDeps (To ([msgA, msgB, msgC] ! i)) (Content ([msgA, msgB, msgC] ! i)))) \<noteq> None"
    by (simp add: sendFailsDeps_def)
  have f3: "snd (snd (Send sendFailsDeps (To msgA) (Content msgA))) \<noteq> None"
    "snd (snd (Send sendFailsDeps (To msgB) (Content msgB))) \<noteq> None"
    "snd (snd (Send sendFailsDeps (To msgC) (Content msgC))) \<noteq> None"
    by (simp_all add: sendFailsDeps_def)
  have upd: "UpdateStatus sendFailsDeps (MarkFailed msgA ''busy'') = Some ''db down''"
    by (simp add: sendFailsDeps_def)
  have t: "traces (ProcessBatch exampleService sendFailsDeps) ! 0
             \<in> set (traces (ProcessBatch exampleService sendFailsDeps))"
    by code_simp
  have p: "Processed 0 (Some ''send message a: webhook returned non-2xx status'')
             (MarkFailed msgA ''busy'') ?fx
           \<in> set (traces (ProcessBatch exampleService sendFailsDeps) ! 0)"
    by code_simp
  from C6_all_failed [OF fetch fails] t p
  have "messages (ProcessBatch exampleService sendFailsDeps) ! 0 = MarkFailed msgA ''busy''
        \<and> Status (MarkFailed msgA ''busy'') = StatusFailed
        \<and> RawResponse (MarkFailed msgA ''busy'') =
            fst (snd (Send sendFailsDeps (To ([msgA, msgB, msgC] ! 0)) (Content ([msgA, msgB, msgC] ! 0))))
        \<and> err (ProcessBatch exampleService sendFailsDeps) = None"
    by blast
  then show ?thesis using fetch f3 upd by (simp add: sendFailsDeps_def)
qed

section \<open>The defaults of the configuration\<close>

lemma getDuration_setting:
  "getDuration lib key def = (case durationSetting lib key of None \<Rightarrow> def | Some d \<Rightarrow> d)"
  by (simp add: getDuration_def durationSetting_def Let_def)

lemma getInt_setting:
  "getInt lib key def = (case intSetting lib key of None \<Rightarrow> def | Some i \<Rightarrow> i)"
  by (simp add: getInt_def intSetting_def Let_def)

text \<open>
  Claim C7, as amended. The value each component ends up with, for any environment: a
  variable that is unset or does not parse gives 5 seconds for the tick interval, 30
  seconds for the batch deadline, 100 for the batch size, 4 for the workers and 5
  seconds for the per-item timeout; a variable that parses to a value that is not
  positive gives 2 minutes for the tick interval and the same values as before for the
  others. The two constructors replace an argument that is not positive by 2 minutes,
  30 seconds, 100, 4 and 5 seconds.
\<close>

theorem C7_defaults:
  "interval (snd (wire lib)) =
     (case durationSetting lib ''SCHEDULER_INTERVAL'' of
        None \<Rightarrow> 5 * Second
      | Some d \<Rightarrow> if d \<le> 0 then 2 * Minute else d)
   \<and> batchTimeout (snd (wire lib)) =
     (case durationSetting lib ''SCHEDULER_BATCH_TIMEOUT'' of
        None \<Rightarrow> 30 * Second
      | Some d \<Rightarrow> if d \<le> 0 then 30 * Second else d)
   \<and> batchSize (fst (wire lib)) =
     (case intSetting lib ''MESSAGE_BATCH_SIZE'' of
        None \<Rightarrow> 100
      | Some n \<Rightarrow> if n \<le> 0 then 100 else n)
   \<and> maxWorkers (fst (wire lib)) =
     (case intSetting lib ''MESSAGE_MAX_WORKERS'' of
        None \<Rightarrow> 4
      | Some n \<Rightarrow> if n \<le> 0 then 4 else n)
   \<and> perMessageTimeout (fst (wire lib)) =
     (case durationSetting lib ''MESSAGE_PER_MESSAGE_TIMEOUT'' of
        None \<Rightarrow> 5 * Second
      | Some d \<Rightarrow> if d \<le> 0 then 5 * Second else d)
   \<and> NewSchedulerService iv bt =
       \<lparr>interval = (if iv \<le> 0 then 2 * Minute else iv),
        batchTimeout = (if bt \<le> 0 then 30 * Second else bt)\<rparr>
   \<and> NewMessageService bs mw pmt =
       \<lparr>batchSize = (if bs \<le> 0 then 100 else bs),
        maxWorkers = (if mw \<le> 0 then 4 else mw),
        perMessageTimeout = (if pmt \<le> 0 then 5 * Second else pmt)\<rparr>"
  by (simp add: wire_def New_def NewSchedulerService_def NewMessageService_def Let_def
        getDuration_setting getInt_setting DefaultInterval_def DefaultBatchTimeout_def
        Second_def Millisecond_def Minute_def
      split: option.splits)

text \<open>
  Claim C7 as it is stated fails: with \<^verbatim>\<open>SCHEDULER_INTERVAL\<close> unset the scheduler ticks
  every 5 seconds, not every 2 minutes.
\<close>

theorem C7_counterexample:
  "Getenv emptyEnv ''SCHEDULER_INTERVAL'' = []
   \<and> interval (snd (wire emptyEnv)) = 5 * Second
   \<and> interval (snd (wire emptyEnv)) \<noteq> 2 * Minute"
  by (simp add: wire_def New_def NewSchedulerService_def Let_def getDuration_def emptyEnv_def
        Second_def Millisecond_def Minute_def)

section \<open>Runs of the control loop\<close>

lemmas time_defs = Second_def Millisecond_def Minute_def Hour_def controlTimeout_def
  DefaultInterval_def DefaultBatchTimeout_def

lemmas loop_defs = exampleScheduler_def quickScheduler_def NewSchedulerService_def loopInit_def
  onCtrl_def onTick_def onBatchReturn_def

lemma loopRun_append:
  "loopRun sv c (xs @ ys) =
     (case loopRun sv c xs of
        None \<Rightarrow> None
      | Some (c1, h1) \<Rightarrow>
          (case loopRun sv c1 ys of
             None \<Rightarrow> None
           | Some (c2, h2) \<Rightarrow> Some (c2, h1 @ h2)))"
  by (induction xs arbitrary: c) (auto split: option.splits)

lemma loopRun_snoc:
  assumes "loopRun sv c (xs @ [ev]) = Some (c2, h)"
  obtains c1 h1 outs where "loopRun sv c xs = Some (c1, h1)"
    and "loopStep sv c1 ev = Some (c2, outs)" and "h = h1 @ [(ev, outs)]"
  using assms by (auto simp: loopRun_append split: option.splits)

lemma loopInv_init: "loopInv loopInit []"
  by (simp add: loopInv_def loopInit_def activeBatches_def heldAcks_def)

lemma loopInv_step:
  assumes "loopInv c1 h1" and "loopStep sv c1 ev = Some (c2, outs)"
  shows "loopInv c2 (h1 @ [(ev, outs)])"
proof -
  obtain pt st tc where c1: "c1 = (pt, st, tc)" by (cases c1) auto
  show ?thesis
  proof (cases ev)
    case (RecvCtrl m)
    then have "pt = AtSelect" using assms c1 by (cases pt) simp_all
    then show ?thesis using assms c1 RecvCtrl
      by (cases "op m")
         (auto simp: loopInv_def onCtrl_def activeBatches_def heldAcks_def activeStep_def
            heldStep_def stopFlagsStep_def split: if_splits)
  next
    case RecvTick
    then have "pt = AtSelect" "tc" using assms c1 by (cases pt; cases tc; simp)+
    then show ?thesis using assms c1 RecvTick
      by (auto simp: loopInv_def onTick_def activeBatches_def heldAcks_def activeStep_def
            heldStep_def stopFlagsStep_def split: if_splits)
  next
    case (BatchReturns e)
    then have "pt = InProcessBatch" using assms c1 by (cases pt) simp_all
    then show ?thesis using assms c1 BatchReturns
      by (cases e)
         (auto simp: loopInv_def onBatchReturn_def activeBatches_def heldAcks_def activeStep_def
            heldStep_def stopFlagsStep_def Let_def split: if_splits)
  next
    case TickerFires
    then show ?thesis using assms c1
      by (auto simp: loopInv_def activeBatches_def heldAcks_def activeStep_def
            heldStep_def stopFlagsStep_def)
  qed
qed

lemma loopInv_run:
  "loopRun sv loopInit evs = Some (cfg, h) \<Longrightarrow> loopInv cfg h"
proof (induction evs arbitrary: cfg h rule: rev_induct)
  case Nil
  then show ?case using loopInv_init by simp
next
  case (snoc ev evs)
  from snoc.prems obtain c1 h1 outs where r: "loopRun sv loopInit evs = Some (c1, h1)"
    and s: "loopStep sv c1 ev = Some (cfg, outs)" and h: "h = h1 @ [(ev, outs)]"
    by (rule loopRun_snoc)
  show ?case using loopInv_step [OF snoc.IH [OF r] s] h by simp
qed

lemma stopTrace_run:
  "loopRun exampleScheduler loopInit (map snd stopTrace) =
     Some ((AtSelect, \<lparr>running = False, inBatch = False, pendingStop = None\<rparr>, False), stopHistory)"
  by (simp add: stopTrace_def batchTrace_def stopHistory_def loop_defs time_defs)

lemma stopTrace_prefix:
  "map_option fst (loopRun exampleScheduler loopInit (map snd (take 3 stopTrace))) =
     Some (InProcessBatch, \<lparr>running = True, inBatch = True, pendingStop = None\<rparr>, False)"
  by (simp add: stopTrace_def batchTrace_def loop_defs time_defs)

text \<open>
  Claim C8. After every run of the control loop from its initial state, \<^verbatim>\<open>pendingStop\<close>
  is non-empty only if \<^verbatim>\<open>inBatch\<close> is true and a Stop message was received during the
  batch that is executing; the acknowledgements the loop holds (Stop messages received
  and not answered yet) are those of \<^verbatim>\<open>pendingStop\<close>, at most one. Each branch of the
  loop keeps this from any state, reachable or not: the branch of a control message
  fills the slot only for a Stop message handled while \<^verbatim>\<open>inBatch\<close> is true, the branch
  of the tick does not touch the slot before the call, and the end of a batch clears
  both the slot and \<^verbatim>\<open>inBatch\<close>.
\<close>

theorem C8_pendingStop_invariant:
  assumes "loopRun sv loopInit evs = Some ((pt, st, tc), h)"
  shows "(pendingStop st \<noteq> None \<longrightarrow> inBatch st \<and> stopDuringBatch h)
       \<and> heldAcks h = (case pendingStop st of None \<Rightarrow> [] | Some c \<Rightarrow> [c])
       \<and> length (heldAcks h) \<le> 1
       \<and> (\<forall>s m. (pendingStop s \<noteq> None \<longrightarrow> inBatch s) \<longrightarrow>
             (pendingStop (fst (onCtrl sv s m)) \<noteq> None \<longrightarrow> inBatch (fst (onCtrl sv s m))))
       \<and> (\<forall>s m. pendingStop (fst (onCtrl sv s m)) \<noteq> pendingStop s \<longrightarrow>
             op m = opStop \<and> inBatch s \<and> pendingStop (fst (onCtrl sv s m)) = Some (resp m))
       \<and> (\<forall>s. pendingStop (fst (snd (onTick sv s))) = pendingStop s)
       \<and> (\<forall>s e. pendingStop (fst (onBatchReturn s e)) = None \<and> \<not> inBatch (fst (onBatchReturn s e)))"
proof -
  have a: "(pendingStop st \<noteq> None \<longrightarrow> inBatch st \<and> stopDuringBatch h)
       \<and> heldAcks h = (case pendingStop st of None \<Rightarrow> [] | Some c \<Rightarrow> [c])
       \<and> length (heldAcks h) \<le> 1"
    using loopInv_run [OF assms] by (simp add: loopInv_def)
  have b: "\<forall>s m. (pendingStop s \<noteq> None \<longrightarrow> inBatch s) \<longrightarrow>
             (pendingStop (fst (onCtrl sv s m)) \<noteq> None \<longrightarrow> inBatch (fst (onCtrl sv s m)))"
    by (auto simp: onCtrl_def Let_def split: controlOp.splits if_splits)
  have c: "\<forall>s m. pendingStop (fst (onCtrl sv s m)) \<noteq> pendingStop s \<longrightarrow>
             op m = opStop \<and> inBatch s \<and> pendingStop (fst (onCtrl sv s m)) = Some (resp m)"
    by (auto simp: onCtrl_def Let_def split: controlOp.splits if_splits)
  have d: "\<forall>s. pendingStop (fst (snd (onTick sv s))) = pendingStop s"
    by (simp add: onTick_def)
  have e: "\<forall>s e. pendingStop (fst (onBatchReturn s e)) = None \<and> \<not> inBatch (fst (onBatchReturn s e))"
    by (auto simp: onBatchReturn_def Let_def split: option.splits)
  show ?thesis using a b c d e by blast
qed

text \<open>The invariant on the run of \<open>stopTrace\<close>, and the branch of Stop on a state with a batch executing.\<close>

theorem C8_pendingStop_invariant_witness:
  "loopRun exampleScheduler loopInit (map snd stopTrace) =
     Some ((AtSelect, \<lparr>running = False, inBatch = False, pendingStop = None\<rparr>, False), stopHistory)
   \<and> heldAcks stopHistory = []
   \<and> length (heldAcks stopHistory) \<le> 1
   \<and> pendingStop (fst (onCtrl exampleScheduler \<lparr>running = True, inBatch = True, pendingStop = None\<rparr>
                          \<lparr>op = opStop, resp = 5\<rparr>)) = Some 5
   \<and> inBatch (fst (onCtrl exampleScheduler \<lparr>running = True, inBatch = True, pendingStop = None\<rparr>
                          \<lparr>op = opStop, resp = 5\<rparr>))
   \<and> pendingStop (fst (onBatchReturn \<lparr>running = False, inBatch = True, pendingStop = Some 5\<rparr> None)) = None"
proof -
  note w = C8_pendingStop_invariant [OF stopTrace_run]
  have p: "pendingStop (fst (onCtrl exampleScheduler \<lparr>running = True, inBatch = True, pendingStop = None\<rparr>
                          \<lparr>op = opStop, resp = 5\<rparr>)) = Some 5"
    by (simp add: onCtrl_def)
  have "pendingStop \<lparr>running = True, inBatch = True, pendingStop = None\<rparr> \<noteq> None \<longrightarrow>
          inBatch \<lparr>running = True, inBatch = True, pendingStop = None\<rparr>" by simp
  then have q: "inBatch (fst (onCtrl exampleScheduler \<lparr>running = True, inBatch = True, pendingStop = None\<rparr>
                          \<lparr>op = opStop, resp = 5\<rparr>))"
    using w p by (metis option.distinct(1))
  show ?thesis using w p q stopTrace_run by simp
qed

text \<open>
  What holds of the ticks: a tick received while the scheduler is not running changes
  nothing and calls nothing; a tick that fires during a batch waits in \<^verbatim>\<open>ticker.C\<close>;
  and after every run at most one call of \<^verbatim>\<open>ProcessBatch\<close> is active.
\<close>

lemma tick_dropped_when_not_running:
  "\<not> running s \<or> inBatch s \<Longrightarrow>
     loopStep sv (AtSelect, s, True) RecvTick = Some ((AtSelect, s, False), [])"
  by (auto simp: onTick_def)

lemma tick_kept_during_batch:
  "loopStep sv (InProcessBatch, s, tc) TickerFires = Some ((InProcessBatch, s, True), [])"
  by simp

lemma one_batch_at_a_time:
  assumes "loopRun sv loopInit evs = Some ((pt, st, tc), h)"
  shows "0 \<le> activeBatches h \<and> activeBatches h \<le> 1
       \<and> (activeBatches h = 1 \<longleftrightarrow> pt = InProcessBatch)"
  using loopInv_run [OF assms] by (auto simp: loopInv_def)


text \<open>
  Claim C9 says that a tick delivered while a batch is executing is dropped and never
  queued. On the code, with a tick every 5 seconds and a batch that runs from 5 to 12
  seconds, the tick that fires at 10 seconds waits in \<^verbatim>\<open>ticker.C\<close>: the loop is inside
  \<^verbatim>\<open>ProcessBatch\<close> and its test of \<^verbatim>\<open>inBatch\<close> is not reached. When the batch returns
  at 12 seconds the \<^verbatim>\<open>select\<close> receives that tick, finds \<^verbatim>\<open>running\<close> true and
  \<^verbatim>\<open>inBatch\<close> false, and starts the next batch at once. No batch is active between the
  two, and one is active after.
\<close>

theorem C9_tick_during_batch_is_kept:
  "map_option fst (loopRun quickScheduler loopInit (map snd (take 3 busyTrace))) =
       Some (InProcessBatch, \<lparr>running = True, inBatch = True, pendingStop = None\<rparr>, False)
   \<and> busyTrace ! 2 = (5 * Second, RecvTick)
   \<and> busyTrace ! 3 = (10 * Second, TickerFires)
   \<and> map_option fst (loopRun quickScheduler loopInit (map snd (take 4 busyTrace))) =
       Some (InProcessBatch, \<lparr>running = True, inBatch = True, pendingStop = None\<rparr>, True)
   \<and> busyTrace ! 4 = (12 * Second, BatchReturns None)
   \<and> map_option fst (loopRun quickScheduler loopInit (map snd (take 5 busyTrace))) =
       Some (AtSelect, \<lparr>running = True, inBatch = False, pendingStop = None\<rparr>, True)
   \<and> busyTrace ! 5 = (12 * Second, RecvTick)
   \<and> map_option fst (loopRun quickScheduler loopInit (map snd busyTrace)) =
       Some (InProcessBatch, \<lparr>running = True, inBatch = True, pendingStop = None\<rparr>, False)
   \<and> map_option (last \<circ> snd) (loopRun quickScheduler loopInit (map snd busyTrace)) =
       Some (RecvTick,
             [LogLine ''[Scheduler] Triggering batch...'' [], CallProcessBatch (30 * Second)])
   \<and> map_option (activeBatches \<circ> snd) (loopRun quickScheduler loopInit (map snd (take 5 busyTrace))) = Some 0
   \<and> map_option (activeBatches \<circ> snd) (loopRun quickScheduler loopInit (map snd busyTrace)) = Some 1"
  by (simp add: busyTrace_def loop_defs time_defs activeBatches_def activeStep_def)

text \<open>
  A control message that the loop receives after it has entered \<^verbatim>\<open>ProcessBatch\<close> is
  received after that call has returned; so a call of \<^verbatim>\<open>Stop\<close> made during a batch
  returns nil only after the batch has returned, and returns an error otherwise, once
  the control timeout has run out.
\<close>

lemma ctrl_after_batch_return:
  "loopRun sv (InProcessBatch, st, tc) evs = Some r \<Longrightarrow> j < length evs \<Longrightarrow>
   evs ! j = RecvCtrl m \<Longrightarrow> \<exists>l<j. \<exists>e. evs ! l = BatchReturns e"
proof (induction evs arbitrary: j tc r)
  case Nil
  then show ?case by simp
next
  case (Cons ev evs)
  show ?case
  proof (cases ev)
    case (RecvCtrl m')
    then show ?thesis using Cons.prems by simp
  next
    case RecvTick
    then show ?thesis using Cons.prems by simp
  next
    case (BatchReturns e)
    then have "j \<noteq> 0" using Cons.prems by (cases j) auto
    then show ?thesis using BatchReturns by (intro exI [of _ 0]) auto
  next
    case TickerFires
    then have j: "j \<noteq> 0" using Cons.prems by (cases j) auto
    then obtain j' where j': "j = Suc j'" by (cases j) auto
    from Cons.prems TickerFires obtain r' where
      "loopRun sv (InProcessBatch, st, True) evs = Some r'"
      by (auto split: option.splits)
    moreover have "j' < length evs" "evs ! j' = RecvCtrl m" using Cons.prems j' by auto
    ultimately obtain l e where "l < j'" "evs ! l = BatchReturns e"
      using Cons.IH by blast
    then have "Suc l < j" "(ev # evs) ! Suc l = BatchReturns e" using j' by auto
    then show ?thesis by blast
  qed
qed

lemma Stop_outcomes:
  assumes "(r, k) \<in> Stop t0 (Some a) acked"
  shows "(r = None \<longrightarrow> a \<le> k) \<and> (r \<noteq> None \<longrightarrow> t0 + controlTimeout \<le> k)"
  using assms
  by (auto simp: Stop_def selectOrTimeout_def controlTimeout_def Second_def Millisecond_def
        split: option.splits if_splits sum.splits)

lemma Stop_nil_only_after_batch:
  assumes sorted: "sorted (map fst tr)"
    and run: "loopRun sv loopInit (map snd tr) \<noteq> None"
    and pre: "map_option fst (loopRun sv loopInit (map snd (take i tr))) = Some (InProcessBatch, st, tc)"
    and ij: "i \<le> j" and j: "j < length tr"
    and recv: "tr ! j = (a, RecvCtrl \<lparr>op = opStop, resp = c\<rparr>)"
    and out: "(r, k) \<in> Stop t0 (Some a) acked"
  shows "\<exists>l e. i \<le> l \<and> l < j \<and> snd (tr ! l) = BatchReturns e
           \<and> (r = None \<longrightarrow> fst (tr ! l) \<le> k)
           \<and> (r \<noteq> None \<longrightarrow> t0 + controlTimeout \<le> k)"
proof -
  obtain final where run': "loopRun sv loopInit (map snd tr) = Some final" using run by auto
  obtain h where pre': "loopRun sv loopInit (map snd (take i tr)) = Some ((InProcessBatch, st, tc), h)"
    using pre by auto
  have "map snd tr = map snd (take i tr) @ map snd (drop i tr)"
    by (metis append_take_drop_id map_append)
  then have "loopRun sv loopInit (map snd (take i tr) @ map snd (drop i tr)) = Some final"
    using run' by simp
  then obtain r' where rest: "loopRun sv (InProcessBatch, st, tc) (map snd (drop i tr)) = Some r'"
    using pre' by (auto simp: loopRun_append split: option.splits)
  have jl: "j - i < length (map snd (drop i tr))" using ij j by simp
  have "map snd (drop i tr) ! (j - i) = RecvCtrl \<lparr>op = opStop, resp = c\<rparr>"
    using ij j recv by simp
  from ctrl_after_batch_return [OF rest jl this] obtain l0 e where
    l0: "l0 < j - i" "map snd (drop i tr) ! l0 = BatchReturns e" by blast
  define l where "l = i + l0"
  have l: "i \<le> l" "l < j" using l0 l_def by auto
  have ev: "snd (tr ! l) = BatchReturns e" using l0 l_def ij j by simp
  have "fst (tr ! l) \<le> fst (tr ! j)"
    using sorted l j sorted_nth_mono [of "map fst tr" l j] by simp
  then have "fst (tr ! l) \<le> a" using recv by simp
  then show ?thesis using l ev Stop_outcomes [OF out] by (intro exI [of _ l] exI [of _ e]) auto
qed

text \<open>
  Claim C1 says that a call of \<^verbatim>\<open>Stop\<close> made while a batch is executing does not
  return until the batch has returned, for every batch duration. On the code, with a
  batch that runs from 120 to 130 seconds, a call of \<^verbatim>\<open>Stop\<close> made at 121 seconds
  returns the error of the control timeout at 123 seconds, 7 seconds before the batch
  returns. The loop is ready for the message at 130 seconds only; it would then answer at
  once, and \<^verbatim>\<open>pendingStop\<close> stays nil: the deferred acknowledgement is never used.
\<close>

theorem C1_Stop_returns_during_batch:
  "map_option fst (loopRun exampleScheduler loopInit (map snd (take 3 stopTrace))) =
       Some (InProcessBatch, \<lparr>running = True, inBatch = True, pendingStop = None\<rparr>, False)
   \<and> stopTrace ! 2 = (120 * Second, RecvTick)
   \<and> stopTrace ! 3 = (130 * Second, BatchReturns None)
   \<and> stopTrace ! 4 = (130 * Second, RecvCtrl \<lparr>op = opStop, resp = 1\<rparr>)
   \<and> Stop (121 * Second) (Some (130 * Second)) (Some (130 * Second)) =
       {(Some ''[Scheduler] Stop: control loop not responding'', 123 * Second)}
   \<and> 123 * Second < 130 * Second
   \<and> map_option (pendingStop \<circ> fst \<circ> snd \<circ> fst) (loopRun exampleScheduler loopInit (map snd stopTrace)) =
       Some None
   \<and> map_option (snd \<circ> last \<circ> snd) (loopRun exampleScheduler loopInit (map snd stopTrace)) =
       Some [LogLine ''[Scheduler] Stop requested. Waiting for current batch (if any)...'' [],
             SendResp 1 True]"
  using stopTrace_prefix
  by (simp add: stopTrace_def batchTrace_def Stop_def selectOrTimeout_def loop_defs time_defs)

text \<open>
  Claim C2 says that \<^verbatim>\<open>IsRunning\<close> returns within the control timeout whatever the loop
  is doing. On the code, a call of \<^verbatim>\<open>IsRunning\<close> made at 121 seconds, one second into a
  batch that returns at 130 seconds, returns at 130 seconds: it has no timeout, where
  \<^verbatim>\<open>Start\<close> called at the same moment gives up after 2 seconds.
\<close>

theorem C2_IsRunning_waits_for_batch:
  "map_option fst (loopRun exampleScheduler loopInit (map snd (take 3 statusTrace))) =
       Some (InProcessBatch, \<lparr>running = True, inBatch = True, pendingStop = None\<rparr>, False)
   \<and> statusTrace ! 2 = (120 * Second, RecvTick)
   \<and> statusTrace ! 3 = (130 * Second, BatchReturns None)
   \<and> statusTrace ! 4 = (130 * Second, RecvCtrl \<lparr>op = opStatus, resp = 1\<rparr>)
   \<and> map_option (snd \<circ> last \<circ> snd) (loopRun exampleScheduler loopInit (map snd statusTrace)) =
       Some [SendResp 1 True]
   \<and> IsRunning (121 * Second) (Some (130 * Second)) (Some (True, 130 * Second)) =
       Some (True, 130 * Second)
   \<and> 121 * Second + controlTimeout < 130 * Second
   \<and> Start (121 * Second) (Some (130 * Second)) (Some (130 * Second)) =
       {(Some ''[Scheduler] Start: control loop not responding'', 123 * Second)}"
  by (simp add: statusTrace_def batchTrace_def loop_defs
        IsRunning_def Start_def selectOrTimeout_def time_defs)

end
